theory Spec2Isabelle
  imports Complex_Main "HOL-Library.Sublist" "HOL-Library.Multiset"
    "HOL-Library.Char_ord" "HOL-Library.List_Lexorder"
begin

section \<open>Data model\<close>

text \<open>
  The engine of the repository (\<^verbatim>\<open>utils/validation\<close>) and the parts of the application
  driver that call it are embedded as HOL functions. A JavaScript number is a binary
  double. The values the validator handles are carried as the reals they denote, and the
  one arithmetic operation it performs on them, the subtraction, rounds its result to the
  nearest double as the language does. The column indices are integers in double
  arithmetic, with the two infinities. Strings are lists of 8-bit code units.
  Lower-casing acts on the ASCII letters and leaves every other code unit as it is
  (JavaScript maps the code units 128 to 255 to code units outside ASCII again, which the
  slug pattern replaces by a hyphen either way); upper-casing, whose result the column
  loop reads code unit by code unit, is given in full.
\<close>

datatype ValidationStatus = PERFECT | MISSING | EXTRA | MISMATCH | NO_MATCH

text \<open>A spreadsheet cell as the row reader delivers it: a number, a string or a boolean.\<close>

datatype cell = CNum real | CStr string | CBool bool

text \<open>A row object: its entries in the order \<^verbatim>\<open>Object.entries\<close> lists them.\<close>

type_synonym row = "(string \<times> cell) list"

record SpecRow =
  productName :: string
  productSlug :: string
  sizeText :: string
  expectedDimensions :: "real list"
  originalRow :: row

record MatchPair =
  expected :: real
  detected :: real
  diff :: real

record ValidationResult =
  status :: ValidationStatus
  matchedRow :: "SpecRow option"
  matches :: "MatchPair list"
  missing :: "real list"
  extra :: "real list"

record ValidationConfig =
  startCol :: string
  endCol :: string

record GeminiResponse =
  dimensions :: "real list"
  units :: string
  markdown_table :: string
  raw_text :: string

datatype InputType = Image | Text

record AnalysisInput =
  inputType :: InputType
  content :: string
  mimeType :: string
  fileName :: "string option"

record AnalysisState =
  isLoading :: bool
  result :: "GeminiResponse option"
  error :: "string option"
  validation :: "ValidationResult option"

text \<open>A thrown \<^verbatim>\<open>Error\<close> with its message.\<close>

datatype jsError = Error string

record File =
  fileLabel :: string
  fileType :: string
  fileData :: string

datatype ItemStatus = PENDING | PROCESSING | COMPLETED | ERROR | SKIPPED

record BatchItem =
  itemId :: "nat \<times> nat"
  itemFile :: File
  itemStatus :: ItemStatus
  matchedSpecs :: "SpecRow list"
  aiResponse :: "GeminiResponse option"
  validations :: "ValidationResult list option"
  itemError :: "string option"

record BatchState =
  items :: "BatchItem list"
  isProcessing :: bool
  progress :: nat
  total :: nat

section \<open>Numbers: rounding to the nearest double\<close>

text \<open>The number of binary digits of a natural number.\<close>

fun bitLength :: "nat \<Rightarrow> nat" where
  "bitLength n = (if n = 0 then 0 else Suc (bitLength (n div 2)))"

declare bitLength.simps [simp del]

text \<open>
  Rounding to 53 significant binary digits, to the nearest value and to the even one of
  two equally near: \<open>k\<close> low digits go, \<open>q\<close> is what stays, \<open>r\<close> what goes and \<open>h\<close>
  half a unit of the last digit that stays.
\<close>

definition roundNat :: "nat \<Rightarrow> nat" where
  "roundNat a =
     (let k = bitLength a - 53
      in if k = 0 then a
         else (let q = a div 2 ^ k; r = a mod 2 ^ k; h = 2 ^ (k - 1);
                   q' = (if r > h \<or> (r = h \<and> odd q) then q + 1 else q)
               in q' * 2 ^ k))"

definition round53 :: "int \<Rightarrow> int" where
  "round53 n = sgn n * int (roundNat (nat \<bar>n\<bar>))"

text \<open>
  \<^verbatim>\<open>a - b\<close> on two doubles. Every double is a multiple of \<open>2 ^ - 1074\<close>, so the exact
  difference is an integer number of such units, which is rounded. (A difference beyond
  the largest double is the infinity in the language and a larger real here; the
  validator only compares it with smaller numbers.)
\<close>

definition unitExponent :: nat where
  "unitExponent = 1074"

definition jsSub :: "real \<Rightarrow> real \<Rightarrow> real" where
  "jsSub a b = real_of_int (round53 \<lfloor>(a - b) * 2 ^ unitExponent\<rfloor>) / 2 ^ unitExponent"

text \<open>A number whose value is an integer or an infinity, as the column loop has them.\<close>

datatype jsnum = Fin int | PosInf | NegInf

text \<open>The double nearest to an integer; from \<open>2 ^ 1024\<close> on it is an infinity.\<close>

definition toDouble :: "int \<Rightarrow> jsnum" where
  "toDouble n =
     (let r = round53 n
      in if 2 ^ 1024 \<le> r then PosInf else if r \<le> - (2 ^ 1024) then NegInf else Fin r)"

text \<open>Adding an integer to a number, and multiplying a number by a positive integer.\<close>

definition jsAdd :: "jsnum \<Rightarrow> int \<Rightarrow> jsnum" where
  "jsAdd x d = (case x of Fin n \<Rightarrow> toDouble (n + d) | PosInf \<Rightarrow> PosInf | NegInf \<Rightarrow> NegInf)"

definition jsMul :: "jsnum \<Rightarrow> int \<Rightarrow> jsnum" where
  "jsMul x m = (case x of Fin n \<Rightarrow> toDouble (n * m) | PosInf \<Rightarrow> PosInf | NegInf \<Rightarrow> NegInf)"

text \<open>\<^verbatim>\<open>x <= y\<close>.\<close>

definition jsLe :: "jsnum \<Rightarrow> jsnum \<Rightarrow> bool" where
  "jsLe x y =
     (case x of
        NegInf \<Rightarrow> True
      | PosInf \<Rightarrow> (y = PosInf)
      | Fin a \<Rightarrow> (case y of Fin b \<Rightarrow> a \<le> b | PosInf \<Rightarrow> True | NegInf \<Rightarrow> False))"

section \<open>String primitives\<close>

definition charCode :: "char \<Rightarrow> nat" where
  "charCode c = of_char c"

definition isUpperAZ :: "char \<Rightarrow> bool" where
  "isUpperAZ c = (65 \<le> charCode c \<and> charCode c \<le> 90)"

definition isLowerAZ :: "char \<Rightarrow> bool" where
  "isLowerAZ c = (97 \<le> charCode c \<and> charCode c \<le> 122)"

definition isDigit :: "char \<Rightarrow> bool" where
  "isDigit c = (48 \<le> charCode c \<and> charCode c \<le> 57)"

text \<open>The white space of \<^verbatim>\<open>trim\<close> and of the pattern \<^verbatim>\<open>\s\<close>, below 256.\<close>

definition isSpace :: "char \<Rightarrow> bool" where
  "isSpace c = ((9 \<le> charCode c \<and> charCode c \<le> 13) \<or> charCode c = 32 \<or> charCode c = 160)"

definition toLowerChar :: "char \<Rightarrow> char" where
  "toLowerChar c = (if isUpperAZ c then char_of (charCode c + 32) else c)"

definition toLowerCase :: "string \<Rightarrow> string" where
  "toLowerCase s = map toLowerChar s"

text \<open>
  \<^verbatim>\<open>toUpperCase\<close>, as the code units of its result, which need not be 8-bit ones. Outside
  ASCII the small letters 224 to 254 (but the division sign, 247) go to the capital
  letters 32 below them, the sharp s (223) becomes two capital S, and the micro sign (181)
  and the y with diaeresis (255) go to the code units 924 and 376.
\<close>

definition upperUnits :: "char \<Rightarrow> nat list" where
  "upperUnits c =
     (let n = charCode c
      in if isLowerAZ c then [n - 32]
         else if n = 181 then [924]
         else if n = 223 then [83, 83]
         else if 224 \<le> n \<and> n \<le> 254 \<and> n \<noteq> 247 then [n - 32]
         else if n = 255 then [376]
         else [n])"

definition toUpperCase :: "string \<Rightarrow> nat list" where
  "toUpperCase s = concat (map upperUnits s)"

definition trim :: "string \<Rightarrow> string" where
  "trim s = rev (dropWhile isSpace (rev (dropWhile isSpace s)))"

text \<open>\<^verbatim>\<open>s.includes(p)\<close>: \<open>p\<close> occurs in \<open>s\<close> as a contiguous run.\<close>

fun includesStr :: "string \<Rightarrow> string \<Rightarrow> bool" where
  "includesStr [] p = (p = [])"
| "includesStr (c # cs) p = (prefix p (c # cs) \<or> includesStr cs p)"

section \<open>Normalisation: \<^verbatim>\<open>toSlug\<close>\<close>

text \<open>The class \<^verbatim>\<open>[a-z0-9]\<close>.\<close>

definition isSlugChar :: "char \<Rightarrow> bool" where
  "isSlugChar c = (isLowerAZ c \<or> isDigit c)"

text \<open>\<^verbatim>\<open>.replace(/[^a-z0-9]+/g, '-')\<close>: every maximal run outside the class becomes one hyphen.\<close>

function replaceNonAlnumRuns :: "string \<Rightarrow> string" where
  "replaceNonAlnumRuns [] = []"
| "replaceNonAlnumRuns (c # cs) =
     (if isSlugChar c then c # replaceNonAlnumRuns cs
      else CHR ''-'' # replaceNonAlnumRuns (dropWhile (\<lambda>d. \<not> isSlugChar d) cs))"
  by pat_completeness auto
termination
  by (relation "measure length") (auto simp: less_Suc_eq_le length_dropWhile_le)

text \<open>\<^verbatim>\<open>.replace(/^-+|-+$/g, '')\<close>: the hyphens at the start and at the end go.\<close>

definition stripHyphens :: "string \<Rightarrow> string" where
  "stripHyphens s =
     rev (dropWhile (\<lambda>c. c = CHR ''-'') (rev (dropWhile (\<lambda>c. c = CHR ''-'') s)))"

definition toSlug :: "string \<Rightarrow> string" where
  "toSlug text = (if text = [] then [] else
     stripHyphens (replaceNonAlnumRuns (toLowerCase text)))"

section \<open>Column letters: \<^verbatim>\<open>colLetterToIndex\<close>\<close>

text \<open>The loop over the code units of \<^verbatim>\<open>column\<close>, \<open>res\<close> being the variable
  \<^verbatim>\<open>result\<close>.\<close>

fun colLoop :: "nat list \<Rightarrow> jsnum \<Rightarrow> jsnum" where
  "colLoop [] res = res"
| "colLoop (c # cs) res = colLoop cs (jsAdd (jsMul res 26) (int c - 64))"

definition colLetterToIndex :: "string \<Rightarrow> jsnum" where
  "colLetterToIndex letter = (let column = toUpperCase letter in jsAdd (colLoop column (Fin 0)) (- 1))"

text \<open>
  The spreadsheet numeral the loop is meant to compute, written as the positional sum:
  the digit of a letter is its place in the alphabet, 1 to 26, and the leftmost digit
  weighs most.
\<close>

definition letterDigit :: "char \<Rightarrow> int" where
  "letterDigit c = (if isLowerAZ c then int (charCode c) - 96 else int (charCode c) - 64)"

definition base26_value :: "int list \<Rightarrow> int" where
  "base26_value ds = (\<Sum>i<length ds. ds ! i * 26 ^ (length ds - 1 - i))"

definition isLetter :: "char \<Rightarrow> bool" where
  "isLetter c = (isUpperAZ c \<or> isLowerAZ c)"

section \<open>Numeric extraction: \<^verbatim>\<open>extractNumbers\<close>\<close>

fun digitsValue :: "string \<Rightarrow> nat \<Rightarrow> nat" where
  "digitsValue [] acc = acc"
| "digitsValue (c # cs) acc = digitsValue cs (acc * 10 + (charCode c - 48))"

text \<open>\<^verbatim>\<open>Number(m)\<close> for a match \<open>m\<close> made of a sign, integer digits and fraction digits.\<close>

definition numberOf :: "bool \<Rightarrow> string \<Rightarrow> string \<Rightarrow> real" where
  "numberOf neg ip fp =
     (let v = real (digitsValue ip 0) + real (digitsValue fp 0) / 10 ^ length fp
      in if neg then - v else v)"

text \<open>
  The part \<^verbatim>\<open>\d*\.?\d+\<close> of the pattern at the start of \<open>s\<close>, with the engine's greedy
  choice: all the digits, then a point and all the digits after it when at least one
  follows; otherwise the digits alone, when there is one. The result is the integer
  digits, the fraction digits and the number of characters consumed.
\<close>

definition matchUnsigned :: "string \<Rightarrow> (string \<times> string \<times> nat) option" where
  "matchUnsigned s =
     (let ip = takeWhile isDigit s;
          r = drop (length ip) s;
          fp = (case r of [] \<Rightarrow> [] | c # r' \<Rightarrow> if c = CHR ''.'' then takeWhile isDigit r' else [])
      in if fp \<noteq> [] then Some (ip, fp, length ip + 1 + length fp)
         else if ip \<noteq> [] then Some (ip, [], length ip)
         else None)"

text \<open>The whole pattern \<^verbatim>\<open>-?\d*\.?\d+\<close> at the start of \<open>s\<close>: the value and the length of the match.\<close>

definition matchNumber :: "string \<Rightarrow> (real \<times> nat) option" where
  "matchNumber s =
     (case s of
        [] \<Rightarrow> None
      | c # r \<Rightarrow>
          if c = CHR ''-'' then
            (case matchUnsigned r of
               Some (ip, fp, n) \<Rightarrow> Some (numberOf True ip fp, n + 1)
             | None \<Rightarrow> None)
          else
            (case matchUnsigned s of
               Some (ip, fp, n) \<Rightarrow> Some (numberOf False ip fp, n)
             | None \<Rightarrow> None))"

text \<open>\<^verbatim>\<open>str.match(/-?\d*\.?\d+/g)\<close> mapped by \<^verbatim>\<open>Number\<close>: the matches from left to right,
  the search going on after each match.\<close>

function scanNumbers :: "string \<Rightarrow> real list" where
  "scanNumbers [] = []"
| "scanNumbers (c # cs) =
     (case matchNumber (c # cs) of
        None \<Rightarrow> scanNumbers cs
      | Some (v, n) \<Rightarrow> v # scanNumbers (drop (n - 1) cs))"
  by pat_completeness auto
termination
  by (relation "measure length") auto

definition extractNumbers :: "cell \<Rightarrow> real list" where
  "extractNumbers v =
     (case v of
        CNum n \<Rightarrow> [n]
      | CStr s \<Rightarrow> if s = [] then [] else scanNumbers s
      | CBool b \<Rightarrow> if \<not> b then [] else scanNumbers ''true'')"

section \<open>Building the reference table: \<^verbatim>\<open>parseSpecFile\<close>\<close>

text \<open>The seven patterns for the product name column, each tested on a trimmed key;
  the flag \<^verbatim>\<open>i\<close> is the comparison of the lower-cased key.\<close>

definition wordsPattern :: "string \<Rightarrow> string \<Rightarrow> string \<Rightarrow> bool" where
  "wordsPattern w1 w2 k =
     (let l = toLowerCase k
      in prefix w1 l \<and> dropWhile isSpace (drop (length w1) l) = w2)"

definition exactPattern :: "string \<Rightarrow> string \<Rightarrow> bool" where
  "exactPattern w k = (toLowerCase k = w)"

definition productNamePatterns :: "(string \<Rightarrow> bool) list" where
  "productNamePatterns =
     [wordsPattern ''product'' ''name'', exactPattern ''product'',
      wordsPattern ''model'' ''name'', exactPattern ''model'',
      wordsPattern ''item'' ''name'', exactPattern ''name'',
      (\<lambda>k. includesStr (toLowerCase k) ''name'')]"

fun findProductNameKey :: "(string \<Rightarrow> bool) list \<Rightarrow> string list \<Rightarrow> string" where
  "findProductNameKey [] keys = []"
| "findProductNameKey (pattern # ps) keys =
     (case find (\<lambda>k. pattern (trim k)) keys of
        Some m \<Rightarrow> if m \<noteq> [] then m else findProductNameKey ps keys
      | None \<Rightarrow> findProductNameKey ps keys)"

definition sizeKeyOf :: "string list \<Rightarrow> string" where
  "sizeKeyOf keys =
     (case find (\<lambda>k. exactPattern ''size'' (trim k) \<or> exactPattern ''dimension'' (trim k)) keys of
        Some m \<Rightarrow> if m \<noteq> [] then m else ''Size''
      | None \<Rightarrow> ''Size'')"

text \<open>\<^verbatim>\<open>row[key] || ''\<close>: an absent or falsy value gives the empty string.\<close>

definition orEmpty :: "cell option \<Rightarrow> cell" where
  "orEmpty v =
     (case v of
        None \<Rightarrow> CStr []
      | Some (CNum n) \<Rightarrow> if n = 0 then CStr [] else CNum n
      | Some (CStr s) \<Rightarrow> CStr s
      | Some (CBool b) \<Rightarrow> if b then CBool b else CStr [])"

text \<open>\<^verbatim>\<open>String(v)\<close>; how a number prints is the language's own, taken as \<open>numStr\<close>.\<close>

definition toStr :: "(real \<Rightarrow> string) \<Rightarrow> cell \<Rightarrow> string" where
  "toStr numStr v =
     (case v of
        CNum n \<Rightarrow> numStr n
      | CStr s \<Rightarrow> s
      | CBool b \<Rightarrow> if b then ''true'' else ''false'')"

text \<open>\<^verbatim>\<open>headers[i]\<close>: \<^verbatim>\<open>undefined\<close> outside the array and at an empty header cell.\<close>

definition headerAt :: "string option list \<Rightarrow> jsnum \<Rightarrow> string option" where
  "headerAt headers i =
     (case i of
        Fin n \<Rightarrow> if 0 \<le> n \<and> nat n < length headers then headers ! nat n else None
      | PosInf \<Rightarrow> None
      | NegInf \<Rightarrow> None)"

text \<open>
  The loop \<^verbatim>\<open>for (let i = start; i <= end; i++) allowedIndices.push(i)\<close>. The first
  argument is the room left in the array: a push into a full array throws (an error whose
  message is the engine's own), and the \<^verbatim>\<open>catch\<close> of \<^verbatim>\<open>parseSpecFile\<close> turns that into
  the rejection. \<open>i++\<close> is an addition of doubles, which from \<open>2 ^ 53\<close> on no longer
  advances.
\<close>

fun rangeLoop :: "nat \<Rightarrow> jsnum \<Rightarrow> jsnum \<Rightarrow> jsnum list \<Rightarrow> jsError + jsnum list" where
  "rangeLoop 0 i e acc = (if jsLe i e then Inl (Error ''Invalid array length'') else Inr acc)"
| "rangeLoop (Suc room) i e acc =
     (if jsLe i e then rangeLoop room (jsAdd i 1) e (acc @ [i]) else Inr acc)"

text \<open>\<open>capacity\<close> is the number of elements an array can take (the language allows at
  most \<open>2 ^ 32 - 1\<close>; an engine may run out of memory before).\<close>

definition allowedIndicesOf ::
  "nat \<Rightarrow> ValidationConfig option \<Rightarrow> string option list \<Rightarrow> jsError + jsnum list" where
  "allowedIndicesOf capacity config headers =
     (case config of
        Some cfg \<Rightarrow>
          if startCol cfg \<noteq> [] \<and> endCol cfg \<noteq> [] then
            (let startIdx = colLetterToIndex (startCol cfg);
                 endIdx = colLetterToIndex (endCol cfg)
             in rangeLoop capacity startIdx endIdx [])
          else Inr (map (\<lambda>i. Fin (int i)) [0..<length headers])
      | None \<Rightarrow> Inr (map (\<lambda>i. Fin (int i)) [0..<length headers]))"

definition allowedKeysOf ::
  "nat \<Rightarrow> ValidationConfig option \<Rightarrow> string option list \<Rightarrow> jsError + string list" where
  "allowedKeysOf capacity config headers =
     (case allowedIndicesOf capacity config headers of
        Inl err \<Rightarrow> Inl err
      | Inr allowedIndices \<Rightarrow> Inr (List.map_filter (headerAt headers) allowedIndices))"

definition reservedWords :: "string list" where
  "reservedWords = [''product'', ''name'', ''size'', ''id'', ''model'', ''row'', ''sku'']"

text \<open>Whether the entry of a row under \<open>key\<close> is scanned for numbers.\<close>

definition scanned :: "ValidationConfig option \<Rightarrow> string list \<Rightarrow> string \<Rightarrow> bool" where
  "scanned config allowedKeys key =
     (if (case config of Some cfg \<Rightarrow> startCol cfg \<noteq> [] | None \<Rightarrow> False)
      then key \<in> set allowedKeys
      else \<not> list_ex (\<lambda>k. includesStr (toLowerCase key) k) reservedWords)"

text \<open>The \<^verbatim>\<open>forEach\<close> over the entries of a row, \<open>acc\<close> being \<^verbatim>\<open>expectedDimensions\<close>.\<close>

fun collectDimensions ::
  "ValidationConfig option \<Rightarrow> string list \<Rightarrow> row \<Rightarrow> real list \<Rightarrow> real list" where
  "collectDimensions config allowedKeys [] acc = acc"
| "collectDimensions config allowedKeys ((key, v) # entries) acc =
     (if \<not> scanned config allowedKeys key then collectDimensions config allowedKeys entries acc
      else collectDimensions config allowedKeys entries
             (acc @ filter (\<lambda>num. num > 0 \<and> num < 2000) (extractNumbers v)))"

definition buildSpec ::
  "(real \<Rightarrow> string) \<Rightarrow> ValidationConfig option \<Rightarrow> string list \<Rightarrow> string \<Rightarrow> string list
     \<Rightarrow> row \<Rightarrow> SpecRow" where
  "buildSpec numStr config keys productNameKey allowedKeys r =
     (let name = trim (toStr numStr (orEmpty (map_of r productNameKey)));
          sizeKey = sizeKeyOf keys;
          sz = orEmpty (map_of r sizeKey);
          dims = collectDimensions config allowedKeys r []
      in \<lparr>productName = name,
          productSlug = toSlug name,
          sizeText = trim (toStr numStr sz),
          expectedDimensions = sort dims,
          originalRow = r\<rparr>)"

text \<open>
  The input is what the spreadsheet reader hands over: the decoding error it threw, or
  the rows of the first sheet as objects together with the sheet's first row as an array.
  A thrown error is the rejection of the promise; anything else resolves it.
\<close>

definition parseSpecFile ::
  "nat \<Rightarrow> (real \<Rightarrow> string) \<Rightarrow> jsError + (row list \<times> string option list)
     \<Rightarrow> ValidationConfig option \<Rightarrow> jsError + SpecRow list" where
  "parseSpecFile capacity numStr sheet config =
     (case sheet of
        Inl err \<Rightarrow> Inl err
      | Inr (jsonData, headers) \<Rightarrow>
          (case jsonData of
             [] \<Rightarrow> Inr []
           | firstRow # _ \<Rightarrow>
               (let keys = map fst firstRow;
                    found = findProductNameKey productNamePatterns keys;
                    productNameKey = (if found = [] then ''Product Name'' else found)
                in case allowedKeysOf capacity config headers of
                     Inl err \<Rightarrow> Inl err
                   | Inr allowedKeys \<Rightarrow>
                       (let specs = map (buildSpec numStr config keys productNameKey allowedKeys)
                                      jsonData
                        in Inr (filter (\<lambda>s. productName s \<noteq> [] \<and> length (productSlug s) > 0)
                                  specs)))))"

section \<open>Matching a file name: \<^verbatim>\<open>findAllMatchingSpecs\<close>\<close>

text \<open>
  \<^verbatim>\<open>fileName.replace(/\.[^/.]+$/, "")\<close>: the pattern can only match at the last point of
  the name, and does when what follows it is not empty and has no slash.
\<close>

definition stripExtension :: "string \<Rightarrow> string" where
  "stripExtension name =
     (let ext = takeWhile (\<lambda>c. c \<noteq> CHR ''.'') (rev name)
      in if length ext < length name \<and> ext \<noteq> [] \<and> CHR ''/'' \<notin> set ext
         then take (length name - length ext - 1) name
         else name)"

text \<open>The loop that collects the candidates, in the order of the table.\<close>

fun collectCandidates :: "string \<Rightarrow> SpecRow list \<Rightarrow> SpecRow list \<Rightarrow> SpecRow list" where
  "collectCandidates fileSlug [] candidates = candidates"
| "collectCandidates fileSlug (spec # specs) candidates =
     (if productSlug spec = [] then collectCandidates fileSlug specs candidates
      else if includesStr fileSlug (productSlug spec)
        then collectCandidates fileSlug specs (candidates @ [spec])
        else collectCandidates fileSlug specs candidates)"

text \<open>
  \<^verbatim>\<open>Array.prototype.sort\<close> with a comparison function: a stable sort, here by insertion.
  \<open>cmp a b \<le> 0\<close> keeps \<open>a\<close> before \<open>b\<close>.
\<close>

fun insertBy :: "('a \<Rightarrow> 'a \<Rightarrow> int) \<Rightarrow> 'a \<Rightarrow> 'a list \<Rightarrow> 'a list" where
  "insertBy cmp x [] = [x]"
| "insertBy cmp x (y # ys) = (if cmp x y \<le> 0 then x # y # ys else y # insertBy cmp x ys)"

definition sortBy :: "('a \<Rightarrow> 'a \<Rightarrow> int) \<Rightarrow> 'a list \<Rightarrow> 'a list" where
  "sortBy cmp xs = foldr (insertBy cmp) xs []"

text \<open>The comparison function of the ranking; \<open>localeCompare\<close> is the language's own
  collation of two strings and is a parameter.\<close>

definition compareSpecs :: "(string \<Rightarrow> string \<Rightarrow> int) \<Rightarrow> SpecRow \<Rightarrow> SpecRow \<Rightarrow> int" where
  "compareSpecs localeCompare a b =
     (if length (productSlug b) \<noteq> length (productSlug a)
      then int (length (productSlug b)) - int (length (productSlug a))
      else localeCompare (productName a) (productName b))"

text \<open>A collation to put in the place of the parameter: the order of the code units.\<close>

definition codeUnitCompare :: "string \<Rightarrow> string \<Rightarrow> int" where
  "codeUnitCompare a b = (if a < b then - 1 else if a = b then 0 else 1)"

definition findAllMatchingSpecs ::
  "(string \<Rightarrow> string \<Rightarrow> int) \<Rightarrow> string \<Rightarrow> SpecRow list \<Rightarrow> SpecRow list" where
  "findAllMatchingSpecs localeCompare name specs =
     (let fileStem = stripExtension name;
          fileSlug = toSlug fileStem
      in if fileSlug = [] then []
         else (let candidates = collectCandidates fileSlug specs []
               in if length candidates = 0 then []
                  else sortBy (compareSpecs localeCompare) candidates))"

definition findMatchingSpec ::
  "(string \<Rightarrow> string \<Rightarrow> int) \<Rightarrow> string \<Rightarrow> SpecRow list \<Rightarrow> SpecRow option" where
  "findMatchingSpec localeCompare name specs =
     (let ms = findAllMatchingSpecs localeCompare name specs
      in if length ms > 0 then Some (ms ! 0) else None)"

section \<open>Reconciling dimensions: \<^verbatim>\<open>validateDimensions\<close>\<close>

definition TOLERANCE :: real where
  "TOLERANCE = 0.5"

text \<open>\<^verbatim>\<open>Number.MAX_VALUE\<close>, the largest finite number.\<close>

definition MAX_VALUE :: real where
  "MAX_VALUE = (2 ^ 53 - 1) * 2 ^ 971"

text \<open>
  The inner loop over the pool \<^verbatim>\<open>extra\<close>: \<open>i\<close> is the index of the head of the part still
  to scan, and the state is \<^verbatim>\<open>bestMatchIdx\<close> (with \<open>-1\<close> for none) and \<^verbatim>\<open>minDiff\<close>.
\<close>

fun scanPool :: "real \<Rightarrow> real list \<Rightarrow> nat \<Rightarrow> int \<times> real \<Rightarrow> int \<times> real" where
  "scanPool ex [] i (bestMatchIdx, minDiff) = (bestMatchIdx, minDiff)"
| "scanPool ex (x # xs) i (bestMatchIdx, minDiff) =
     (let d = \<bar>jsSub ex x\<bar>
      in if d \<le> TOLERANCE \<and> d < minDiff
         then scanPool ex xs (i + 1) (int i, d)
         else scanPool ex xs (i + 1) (bestMatchIdx, minDiff))"

text \<open>\<^verbatim>\<open>extra.splice(idx, 1)\<close>.\<close>

definition splice1 :: "'a list \<Rightarrow> nat \<Rightarrow> 'a list" where
  "splice1 xs idx = take idx xs @ drop (idx + 1) xs"

text \<open>The outer loop over the sorted expected values; the state is
  \<^verbatim>\<open>matches\<close>, \<^verbatim>\<open>missing\<close> and \<^verbatim>\<open>extra\<close>.\<close>

fun matchLoop ::
  "real list \<Rightarrow> MatchPair list \<times> real list \<times> real list
     \<Rightarrow> MatchPair list \<times> real list \<times> real list" where
  "matchLoop [] st = st"
| "matchLoop (ex # rest) (ms, mis, ext) =
     (case scanPool ex ext 0 (- 1, MAX_VALUE) of
        (bestMatchIdx, minDiff) \<Rightarrow>
          if bestMatchIdx \<noteq> - 1
          then matchLoop rest
                 (ms @ [\<lparr>expected = ex, detected = ext ! nat bestMatchIdx, diff = minDiff\<rparr>],
                  mis, splice1 ext (nat bestMatchIdx))
          else matchLoop rest (ms, mis @ [ex], ext))"

definition classify :: "real list \<Rightarrow> real list \<Rightarrow> ValidationStatus" where
  "classify mis ext =
     (if length mis = 0 \<and> length ext = 0 then PERFECT
      else if length mis > 0 \<and> length ext = 0 then MISSING
      else if length mis = 0 \<and> length ext > 0 then EXTRA
      else MISMATCH)"

definition validateDimensions :: "real list \<Rightarrow> SpecRow \<Rightarrow> ValidationResult" where
  "validateDimensions det spec =
     (let sortedDetected = sort det;
          sortedExpected = sort (expectedDimensions spec)
      in case matchLoop sortedExpected ([], [], sortedDetected) of
           (ms, mis, ext) \<Rightarrow>
             \<lparr>status = classify mis ext, matchedRow = Some spec,
              matches = ms, missing = mis, extra = ext\<rparr>)"

subsection \<open>The greedy algorithm as the specification words it\<close>

text \<open>
  The reference the validator is compared with, for a given way \<open>gap\<close> of taking the
  absolute difference of an expected and a detected value. For one expected value \<open>e\<close>
  the candidates are the values of the pool within the tolerance; the partner is one of
  least distance to \<open>e\<close> (the first such in the pool, where several are equally near),
  and it leaves the pool once, by value.
\<close>

definition nearest_by :: "(real \<Rightarrow> real \<Rightarrow> real) \<Rightarrow> real \<Rightarrow> real list \<Rightarrow> real option" where
  "nearest_by gap e pool =
     (let near = filter (\<lambda>d. gap e d \<le> 1 / 2) pool
      in if near = [] then None else Some (arg_min_list (gap e) near))"

fun greedy_by ::
  "(real \<Rightarrow> real \<Rightarrow> real) \<Rightarrow> real list \<Rightarrow> real list
     \<Rightarrow> MatchPair list \<times> real list \<times> real list" where
  "greedy_by gap [] pool = ([], [], pool)"
| "greedy_by gap (e # es) pool =
     (case nearest_by gap e pool of
        Some d \<Rightarrow>
          (case greedy_by gap es (remove1 d pool) of
             (pairs, unmatchedExpected, unmatchedDetected) \<Rightarrow>
               (\<lparr>expected = e, detected = d, diff = gap e d\<rparr> # pairs,
                unmatchedExpected, unmatchedDetected))
      | None \<Rightarrow>
          (case greedy_by gap es pool of
             (pairs, unmatchedExpected, unmatchedDetected) \<Rightarrow>
               (pairs, e # unmatchedExpected, unmatchedDetected)))"

definition status_ref :: "real list \<Rightarrow> real list \<Rightarrow> ValidationStatus" where
  "status_ref unmatchedExpected unmatchedDetected =
     (if unmatchedExpected = [] \<and> unmatchedDetected = [] then PERFECT
      else if unmatchedDetected = [] then MISSING
      else if unmatchedExpected = [] then EXTRA
      else MISMATCH)"

definition validate_by :: "(real \<Rightarrow> real \<Rightarrow> real) \<Rightarrow> real list \<Rightarrow> SpecRow \<Rightarrow> ValidationResult" where
  "validate_by gap det entry =
     (case greedy_by gap (sort (expectedDimensions entry)) (sort det) of
        (pairs, unmatchedExpected, unmatchedDetected) \<Rightarrow>
          \<lparr>status = status_ref unmatchedExpected unmatchedDetected, matchedRow = Some entry,
           matches = pairs, missing = unmatchedExpected, extra = unmatchedDetected\<rparr>)"

text \<open>The absolute difference as the specification has it, \<open>|e - d|\<close> exactly, and as
  the program computes it, from the rounded subtraction.\<close>

definition exactDiff :: "real \<Rightarrow> real \<Rightarrow> real" where
  "exactDiff e d = \<bar>e - d\<bar>"

definition computedDiff :: "real \<Rightarrow> real \<Rightarrow> real" where
  "computedDiff e d = \<bar>jsSub e d\<bar>"

definition validate_ref :: "real list \<Rightarrow> SpecRow \<Rightarrow> ValidationResult" where
  "validate_ref det entry = validate_by exactDiff det entry"

section \<open>The application driver\<close>

text \<open>
  \<^verbatim>\<open>handleAnalysis\<close>: the extraction call is the parameter \<open>analyzeContent\<close>, which returns
  the response or the error it threw; the value is the analysis state set at the end.
\<close>

definition handleAnalysis ::
  "(AnalysisInput \<Rightarrow> jsError + GeminiResponse) \<Rightarrow> (string \<Rightarrow> string \<Rightarrow> int)
     \<Rightarrow> SpecRow list \<Rightarrow> AnalysisInput \<Rightarrow> AnalysisState" where
  "handleAnalysis analyzeContent localeCompare specs input =
     (case analyzeContent input of
        Inl (Error msg) \<Rightarrow>
          \<lparr>isLoading = False, result = None,
           error = Some (if msg \<noteq> [] then msg else ''Unknown error occurred during extraction''),
           validation = None\<rparr>
      | Inr geminiResult \<Rightarrow>
          (let validationResult =
             (case fileName input of
                None \<Rightarrow> None
              | Some name \<Rightarrow>
                  if length specs > 0 \<and> name \<noteq> [] then
                    (case findMatchingSpec localeCompare name specs of
                       Some m \<Rightarrow> Some (validateDimensions (dimensions geminiResult) m)
                     | None \<Rightarrow>
                         Some \<lparr>status = NO_MATCH, matchedRow = None,
                               matches = [], missing = [], extra = []\<rparr>)
                  else None)
           in \<lparr>isLoading = False, result = Some geminiResult, error = None,
               validation = validationResult\<rparr>))"

text \<open>\<^verbatim>\<open>handleBatchSelection\<close>: the items of a batch, each with its matches computed at
  once; \<open>clock index\<close> is the reading of the clock that goes into the identifier of the
  item at \<open>index\<close>.\<close>

definition handleBatchSelection ::
  "(string \<Rightarrow> string \<Rightarrow> int) \<Rightarrow> (nat \<Rightarrow> nat) \<Rightarrow> SpecRow list \<Rightarrow> File list \<Rightarrow> BatchState" where
  "handleBatchSelection localeCompare clock specs files =
     (let its = map (\<lambda>(index, f).
                  \<lparr>itemId = (index, clock index), itemFile = f, itemStatus = PENDING,
                   matchedSpecs = (if length specs > 0
                                   then findAllMatchingSpecs localeCompare (fileLabel f) specs
                                   else []),
                   aiResponse = None, validations = None, itemError = None\<rparr>)
                (enumerate 0 files)
      in \<lparr>items = its, isProcessing = False, progress = 0, total = length its\<rparr>)"

text \<open>
  \<^verbatim>\<open>processBatch\<close>. The run carries the batch state, the local array \<^verbatim>\<open>items\<close> and the
  log of the extraction calls issued so far (the index of the item each was issued for).
  \<open>readFile\<close> is the conversion of a file to base64, \<open>analyzeContent\<close> the extraction
  call; each returns its value or the error it threw.
\<close>

record BatchRun =
  batch :: BatchState
  localItems :: "BatchItem list"
  aiCalls :: "nat list"

definition batchStep ::
  "(File \<Rightarrow> jsError + string) \<Rightarrow> (AnalysisInput \<Rightarrow> jsError + GeminiResponse)
     \<Rightarrow> nat \<Rightarrow> BatchRun \<Rightarrow> BatchRun" where
  "batchStep readFile analyzeContent i run =
     (let its = localItems run; it = its ! i
      in if itemStatus it = COMPLETED \<or> itemStatus it = SKIPPED then run
         else if length (matchedSpecs it) = 0 then
           (let its1 = its[i := it\<lparr>itemStatus := SKIPPED,
                                   itemError := Some ''Skipped: No matching Spec Row found''\<rparr>]
            in run\<lparr>batch := (batch run)\<lparr>items := its1, progress := i + 1\<rparr>,
                   localItems := its1\<rparr>)
         else
           (let it1 = it\<lparr>itemStatus := PROCESSING\<rparr>;
                its1 = its[i := it1];
                run1 = run\<lparr>batch := (batch run)\<lparr>items := its1\<rparr>, localItems := its1\<rparr>;
                (it2, calls2) =
                  (case readFile (itemFile it1) of
                     Inl (Error msg) \<Rightarrow>
                       (it1\<lparr>itemStatus := ERROR, itemError := Some msg\<rparr>, aiCalls run1)
                   | Inr base64Content \<Rightarrow>
                       (case analyzeContent
                               \<lparr>inputType = Image, content = base64Content,
                                mimeType = fileType (itemFile it1),
                                fileName = Some (fileLabel (itemFile it1))\<rparr> of
                          Inl (Error msg) \<Rightarrow>
                            (it1\<lparr>itemStatus := ERROR, itemError := Some msg\<rparr>,
                             aiCalls run1 @ [i])
                        | Inr aiResult \<Rightarrow>
                            (it1\<lparr>aiResponse := Some aiResult,
                                 validations :=
                                   Some (map (\<lambda>spec. validateDimensions (dimensions aiResult) spec)
                                           (matchedSpecs it1)),
                                 itemStatus := COMPLETED\<rparr>,
                             aiCalls run1 @ [i])));
                its2 = its1[i := it2]
            in run1\<lparr>batch := (batch run1)\<lparr>items := its2, progress := i + 1\<rparr>,
                    localItems := its2, aiCalls := calls2\<rparr>))"

definition processBatch ::
  "(File \<Rightarrow> jsError + string) \<Rightarrow> (AnalysisInput \<Rightarrow> jsError + GeminiResponse)
     \<Rightarrow> BatchState \<Rightarrow> BatchRun" where
  "processBatch readFile analyzeContent st =
     (if isProcessing st then \<lparr>batch = st, localItems = items st, aiCalls = []\<rparr>
      else
        (let run0 = \<lparr>batch = st\<lparr>isProcessing := True\<rparr>, localItems = items st, aiCalls = []\<rparr>;
             run1 = fold (batchStep readFile analyzeContent) [0..<length (items st)] run0
         in run1\<lparr>batch := (batch run1)\<lparr>isProcessing := False\<rparr>\<rparr>))"

section \<open>Auxiliary notions for the proofs\<close>

text \<open>
  The shape of a string after the first replacement of \<^verbatim>\<open>toSlug\<close>: characters of the
  class and hyphens only, and every hyphen but the last character is followed by a
  character of the class.
\<close>

fun runsCollapsed :: "string \<Rightarrow> bool" where
  "runsCollapsed [] = True"
| "runsCollapsed [c] = (isSlugChar c \<or> c = CHR ''-'')"
| "runsCollapsed (c # d # cs) =
     ((isSlugChar c \<or> (c = CHR ''-'' \<and> isSlugChar d)) \<and> runsCollapsed (d # cs))"

text \<open>
  The invariant of the loop of \<^verbatim>\<open>processBatch\<close> before the step for index \<open>k\<close>, relative
  to the items \<open>its0\<close> the run started with.
\<close>

definition batchInv :: "BatchItem list \<Rightarrow> nat \<Rightarrow> BatchRun \<Rightarrow> bool" where
  "batchInv its0 k run =
     (length (localItems run) = length its0 \<and> items (batch run) = localItems run \<and>
      (\<forall>j<length its0. matchedSpecs (localItems run ! j) = matchedSpecs (its0 ! j)) \<and>
      (\<forall>j<length its0. k \<le> j \<longrightarrow> localItems run ! j = its0 ! j) \<and>
      (\<forall>j<k. matchedSpecs (its0 ! j) = [] \<and> itemStatus (its0 ! j) \<noteq> COMPLETED
           \<longrightarrow> itemStatus (localItems run ! j) = SKIPPED) \<and>
      (\<forall>j\<in>set (aiCalls run). j < k \<and> matchedSpecs (its0 ! j) \<noteq> []))"

text \<open>Sample values on which the theorems below are instantiated.\<close>

definition sideTable :: SpecRow where
  "sideTable = \<lparr>productName = ''Side Table'', productSlug = ''side-table'', sizeText = [],
                expectedDimensions = [24, 12], originalRow = []\<rparr>"

definition roundSideTable :: SpecRow where
  "roundSideTable = \<lparr>productName = ''Round Side Table'', productSlug = ''round-side-table'',
                     sizeText = [], expectedDimensions = [24], originalRow = []\<rparr>"

definition lampResponse :: GeminiResponse where
  "lampResponse = \<lparr>dimensions = [], units = ''in'', markdown_table = [], raw_text = []\<rparr>"

definition lampInput :: AnalysisInput where
  "lampInput = \<lparr>inputType = Image, content = [], mimeType = ''image/png'',
                fileName = Some ''lamp.png''\<rparr>"

definition lampFile :: File where
  "lampFile = \<lparr>fileLabel = ''lamp.png'', fileType = ''image/png'', fileData = ''bGFtcA==''\<rparr>"

definition tableFile :: File where
  "tableFile = \<lparr>fileLabel = ''round-side-table-24in.jpg'', fileType = ''image/jpeg'',
                fileData = ''dGFibGU=''\<rparr>"

definition sampleBatch :: BatchState where
  "sampleBatch = handleBatchSelection codeUnitCompare (\<lambda>i. 0) [sideTable, roundSideTable]
                   [lampFile, tableFile]"

definition sampleRow :: row where
  "sampleRow = [(''Product Name'', CStr ''Side Table''), (''W'', CNum 24),
                (''SKU'', CStr ''SKU-20240501''), (''H'', CStr ''36.5 in'')]"

definition sampleHeaders :: "string option list" where
  "sampleHeaders = [Some ''Product Name'', Some ''W'', Some ''SKU'', Some ''H'']"

text \<open>A way of printing numbers, for sheets in which no number is printed.\<close>

definition sampleNumStr :: "real \<Rightarrow> string" where
  "sampleNumStr n = ''0''"

definition sampleEntry :: SpecRow where
  "sampleEntry = \<lparr>productName = ''Side Table'', productSlug = ''side-table'', sizeText = [],
                  expectedDimensions = [24, 36.5], originalRow = sampleRow\<rparr>"


text \<open>The double just below one half, \<^verbatim>\<open>0.49999999999999994\<close>, and an entry that expects
  the single value 1.\<close>

definition belowHalf :: real where
  "belowHalf = 1 / 2 - 1 / 2 ^ 54"

definition unitEntry :: SpecRow where
  "unitEntry = \<lparr>productName = ''Unit'', productSlug = ''unit'', sizeText = [],
                expectedDimensions = [1], originalRow = []\<rparr>"
section \<open>Rounding: what it leaves alone and how far it moves\<close>

lemma bitLength_0: "bitLength 0 = 0"
  by (simp add: bitLength.simps)

lemma bitLength_pos: "0 < n \<Longrightarrow> bitLength n = Suc (bitLength (n div 2))"
  by (subst bitLength.simps) simp

lemma bitLength_lt: "n < 2 ^ bitLength n"
proof (induction n rule: bitLength.induct)
  case (1 n)
  show ?case
  proof (cases "n = 0")
    case True
    then show ?thesis by (simp add: bitLength_0)
  next
    case False
    then have "n div 2 < 2 ^ bitLength (n div 2)" using 1 by simp
    then have "n < 2 * 2 ^ bitLength (n div 2)" by linarith
    then show ?thesis using False by (simp add: bitLength_pos)
  qed
qed

lemma bitLength_ge: "0 < n \<Longrightarrow> 2 ^ (bitLength n - 1) \<le> n"
proof (induction n rule: bitLength.induct)
  case (1 n)
  have b: "bitLength n = Suc (bitLength (n div 2))"
    using 1(2) by (rule bitLength_pos)
  show ?case
  proof (cases "n div 2 = 0")
    case True
    then show ?thesis using b 1(2) by (simp add: bitLength_0)
  next
    case False
    then have "2 ^ (bitLength (n div 2) - 1) \<le> n div 2" using 1 by simp
    moreover have "0 < bitLength (n div 2)"
      using False by (simp add: bitLength_pos)
    ultimately have "2 ^ bitLength (n div 2) \<le> 2 * (n div 2)"
      by (cases "bitLength (n div 2)") simp_all
    then show ?thesis using b by simp
  qed
qed

lemma bitLength_gt: "2 ^ m \<le> n \<Longrightarrow> m < bitLength n"
proof -
  assume "2 ^ m \<le> n"
  then have "(2::nat) ^ m < 2 ^ bitLength n" using bitLength_lt[of n] by (rule le_less_trans)
  then show ?thesis by (rule power_less_imp_less_exp[rotated]) simp
qed

lemma bitLength_le: "n < 2 ^ m \<Longrightarrow> bitLength n \<le> m"
proof (rule ccontr)
  assume n: "n < 2 ^ m" and c: "\<not> bitLength n \<le> m"
  then have m: "m \<le> bitLength n - 1" by simp
  have pos: "0 < n" using c by (cases "n = 0") (simp_all add: bitLength_0)
  have "(2::nat) ^ m \<le> 2 ^ (bitLength n - 1)" using m by (rule power_increasing) simp
  also have "\<dots> \<le> n" by (rule bitLength_ge[OF pos])
  finally show False using n by simp
qed

lemma bitLength_eqI: "2 ^ m \<le> n \<Longrightarrow> n < 2 ^ Suc m \<Longrightarrow> bitLength n = Suc m"
  using bitLength_gt[of m n] bitLength_le[of n "Suc m"] by simp

lemma roundNat_small: "a < 2 ^ 53 \<Longrightarrow> roundNat a = a"
  using bitLength_le[of a 53] by (simp add: roundNat_def Let_def)

lemma roundNat_0: "roundNat 0 = 0"
  by (simp add: roundNat_small)

lemma roundNat_disj:
  "bitLength a - 53 = 0 \<and> roundNat a = a \<or>
   0 < bitLength a - 53 \<and>
     (roundNat a = (a div 2 ^ (bitLength a - 53)) * 2 ^ (bitLength a - 53) \<or>
      roundNat a = (a div 2 ^ (bitLength a - 53) + 1) * 2 ^ (bitLength a - 53))"
  by (simp add: roundNat_def Let_def)

lemma roundNat_le_pow: "roundNat a \<le> 2 ^ bitLength a"
proof -
  define k where "k = bitLength a - 53"
  have lt: "a < 2 ^ bitLength a" by (rule bitLength_lt)
  have fl: "(a div 2 ^ k) * 2 ^ k \<le> a" by simp
  consider (same) "roundNat a = a"
    | (down) "0 < k" "roundNat a = (a div 2 ^ k) * 2 ^ k"
    | (up) "0 < k" "roundNat a = (a div 2 ^ k + 1) * 2 ^ k"
    using roundNat_disj[of a] unfolding k_def by auto
  then show ?thesis
  proof cases
    case same
    with lt show ?thesis by simp
  next
    case down
    with lt fl show ?thesis by linarith
  next
    case up
    then have b: "bitLength a = 53 + k" using k_def by simp
    have "a < 2 ^ 53 * 2 ^ k" using lt unfolding b by (simp add: power_add)
    then have "a div 2 ^ k < 2 ^ 53" by (simp add: less_mult_imp_div_less)
    then have "a div 2 ^ k + 1 \<le> 2 ^ 53" by simp
    then have "(a div 2 ^ k + 1) * 2 ^ k \<le> 2 ^ 53 * 2 ^ k" by (rule mult_le_mono1)
    then show ?thesis unfolding up(2) b by (simp add: power_add)
  qed
qed

lemma roundNat_pow2: "roundNat (2 ^ m) = 2 ^ m"
proof -
  define k where "k = bitLength ((2::nat) ^ m) - 53"
  have b: "bitLength ((2::nat) ^ m) = Suc m" by (rule bitLength_eqI) simp_all
  show ?thesis
  proof (cases "k = 0")
    case True
    then show ?thesis using k_def by (simp add: roundNat_def Let_def)
  next
    case False
    then have km: "k \<le> m" and k1: "0 < k" using k_def b by simp_all
    have d: "(2::nat) ^ m = 2 ^ (m - k) * 2 ^ k" using km by (simp flip: power_add)
    have q: "(2::nat) ^ m div 2 ^ k = 2 ^ (m - k)" by (subst d) simp
    have r: "(2::nat) ^ m mod 2 ^ k = 0" by (subst d) simp
    have h: "(0::nat) < 2 ^ (k - 1)" by simp
    have "roundNat (2 ^ m) = 2 ^ (m - k) * 2 ^ k"
      using False k_def[symmetric] h by (simp add: roundNat_def Let_def q r)
    then show ?thesis using d by simp
  qed
qed

lemma roundNat_upper: "a \<le> 2 ^ m \<Longrightarrow> roundNat a \<le> 2 ^ m"
proof (cases "a = 2 ^ m")
  case True
  then show ?thesis by (simp add: roundNat_pow2)
next
  case False
  assume "a \<le> 2 ^ m"
  with False have "a < 2 ^ m" by simp
  then have "bitLength a \<le> m" by (rule bitLength_le)
  then have "(2::nat) ^ bitLength a \<le> 2 ^ m" by (rule power_increasing) simp
  with roundNat_le_pow[of a] show ?thesis by (rule le_trans)
qed

lemma roundNat_ge_floor:
  assumes "0 < bitLength a - 53"
  shows "(a div 2 ^ (bitLength a - 53)) * 2 ^ (bitLength a - 53) \<le> roundNat a"
  using roundNat_disj[of a] assms by auto

lemma roundNat_lower:
  assumes m: "53 \<le> m" and a: "2 ^ m + 2 ^ (m - 52) \<le> a"
  shows "2 ^ m + 2 ^ (m - 52) \<le> roundNat a"
proof -
  define k where "k = bitLength a - 53"
  have "2 ^ m \<le> a" using a by simp
  then have bl: "m < bitLength a" by (rule bitLength_gt)
  then have kpos: "0 < k" using m k_def by simp
  have fl: "(a div 2 ^ k) * 2 ^ k \<le> roundNat a"
    using roundNat_ge_floor[of a] kpos unfolding k_def by simp
  show ?thesis
  proof (cases "bitLength a = Suc m")
    case True
    then have k: "k = m - 52" using k_def by simp
    have mk: "m = 52 + k" using k m by simp
    have e: "(2::nat) ^ m + 2 ^ k = (2 ^ 52 + 1) * 2 ^ k" unfolding mk by (simp add: power_add)
    then have "((2::nat) ^ m + 2 ^ k) div 2 ^ k = 2 ^ 52 + 1" by simp
    moreover have "((2::nat) ^ m + 2 ^ k) div 2 ^ k \<le> a div 2 ^ k"
      using a unfolding k[symmetric] by (rule div_le_mono)
    ultimately have "2 ^ 52 + 1 \<le> a div 2 ^ k" by simp
    then have "(2 ^ 52 + 1) * 2 ^ k \<le> (a div 2 ^ k) * 2 ^ k" by (rule mult_le_mono1)
    from this fl have "(2 ^ 52 + 1) * 2 ^ k \<le> roundNat a" by (rule le_trans)
    then show ?thesis unfolding k[symmetric] e .
  next
    case False
    with bl have b2: "Suc (Suc m) \<le> bitLength a" by simp
    have pos: "0 < a" using \<open>2 ^ m \<le> a\<close> by (metis less_le_trans zero_less_numeral zero_less_power)
    have bk: "bitLength a - 1 = 52 + k" using k_def b2 m by simp
    have "(2::nat) ^ (52 + k) \<le> a" using bitLength_ge[OF pos] unfolding bk .
    then have "(2::nat) ^ (52 + k) div 2 ^ k \<le> a div 2 ^ k" by (rule div_le_mono)
    then have "(2::nat) ^ 52 \<le> a div 2 ^ k" by (simp add: power_add)
    then have "2 ^ 52 * 2 ^ k \<le> (a div 2 ^ k) * 2 ^ k" by (rule mult_le_mono1)
    from this fl have "2 ^ 52 * 2 ^ k \<le> roundNat a" by (rule le_trans)
    then have r: "2 ^ (52 + k) \<le> roundNat a" by (simp add: power_add)
    have "Suc m \<le> 52 + k" using bk b2 by simp
    then have "(2::nat) ^ Suc m \<le> 2 ^ (52 + k)" by (rule power_increasing) simp
    then have p1: "2 * (2::nat) ^ m \<le> 2 ^ (52 + k)" by simp
    have p2: "(2::nat) ^ (m - 52) \<le> 2 ^ m" by (rule power_increasing) simp_all
    from p1 p2 r show ?thesis by linarith
  qed
qed

lemma abs_round53: "\<bar>round53 n\<bar> = int (roundNat (nat \<bar>n\<bar>))"
  by (cases "n = 0") (simp_all add: round53_def roundNat_0 abs_mult)

lemma round53_small: "\<bar>n\<bar> < 2 ^ 53 \<Longrightarrow> round53 n = n"
proof -
  assume "\<bar>n\<bar> < 2 ^ 53"
  then have "nat \<bar>n\<bar> < 2 ^ 53" by (simp add: nat_less_iff)
  then have "roundNat (nat \<bar>n\<bar>) = nat \<bar>n\<bar>" by (rule roundNat_small)
  then show ?thesis by (simp add: round53_def mult_sgn_abs)
qed

lemma toDouble_small: "\<bar>n\<bar> < 2 ^ 53 \<Longrightarrow> toDouble n = Fin n"
proof -
  assume a: "\<bar>n\<bar> < 2 ^ 53"
  have "(2::int) ^ 53 \<le> 2 ^ 1024" by (rule power_increasing) simp_all
  with a have "n < 2 ^ 1024" "- (2 ^ 1024) < n" by linarith+
  then show ?thesis using round53_small[OF a] by (simp add: toDouble_def)
qed

lemma floor_scaled_within:
  fixes H :: int
  assumes "0 < H" and "\<bar>x\<bar> \<le> 1 / 2"
  shows "\<bar>\<lfloor>x * real_of_int (2 * H)\<rfloor>\<bar> \<le> H"
proof -
  have h: "0 \<le> real_of_int (2 * H)" using assms(1) by simp
  have "x \<le> 1 / 2" and "- (1 / 2) \<le> x" using assms(2) by (simp_all add: abs_le_iff)
  then have "x * real_of_int (2 * H) \<le> 1 / 2 * real_of_int (2 * H)"
    and "- (1 / 2) * real_of_int (2 * H) \<le> x * real_of_int (2 * H)"
    using h by (simp_all only: mult_right_mono)
  then have "x * real_of_int (2 * H) \<le> real_of_int H"
    and "real_of_int (- H) \<le> x * real_of_int (2 * H)"
    by simp_all
  then have "\<lfloor>x * real_of_int (2 * H)\<rfloor> \<le> H" and "- H \<le> \<lfloor>x * real_of_int (2 * H)\<rfloor>"
    by (simp_all only: le_floor_iff floor_le_iff)
  then show ?thesis by (simp add: abs_le_iff)
qed

lemma floor_scaled_beyond:
  fixes H G :: int
  assumes "0 < H" and "G * 2 ^ 52 = H" and "1 / 2 + 1 / 2 ^ 53 \<le> \<bar>x\<bar>"
  shows "H + G \<le> \<bar>\<lfloor>x * real_of_int (2 * H)\<rfloor>\<bar>"
proof -
  have h: "0 \<le> real_of_int (2 * H)" using assms(1) by simp
  have "real_of_int (G * 2 ^ 52) = real_of_int H" using assms(2) by (simp only:)
  then have "real_of_int H = real_of_int G * 2 ^ 52" by simp
  then have e: "(1 / 2 + 1 / 2 ^ 53) * real_of_int (2 * H) = real_of_int (H + G)"
    by (simp add: field_simps)
  show ?thesis
  proof (cases "0 \<le> x")
    case True
    with assms(3) have "1 / 2 + 1 / 2 ^ 53 \<le> x" by simp
    then have "(1 / 2 + 1 / 2 ^ 53) * real_of_int (2 * H) \<le> x * real_of_int (2 * H)"
      using h by (rule mult_right_mono)
    then have "real_of_int (H + G) \<le> x * real_of_int (2 * H)" unfolding e .
    then have "H + G \<le> \<lfloor>x * real_of_int (2 * H)\<rfloor>" by (simp only: le_floor_iff)
    then show ?thesis by simp
  next
    case False
    with assms(3) have "x \<le> - (1 / 2 + 1 / 2 ^ 53)" by simp
    then have "x * real_of_int (2 * H) \<le> - (1 / 2 + 1 / 2 ^ 53) * real_of_int (2 * H)"
      using h by (rule mult_right_mono)
    also have "\<dots> = real_of_int (- (H + G))" using e by simp
    finally have "x * real_of_int (2 * H) < real_of_int (- (H + G)) + 1" by simp
    then have "\<lfloor>x * real_of_int (2 * H)\<rfloor> \<le> - (H + G)" by (simp only: floor_le_iff)
    then show ?thesis by simp
  qed
qed

lemma jsSub_scaled:
  "jsSub a b = real_of_int (round53 \<lfloor>(a - b) * real_of_int (2 * 2 ^ 1073)\<rfloor>)
                 / real_of_int (2 * 2 ^ 1073)"
  by (simp add: jsSub_def unitExponent_def)

lemma jsSub_within:
  assumes "\<bar>a - b\<bar> \<le> 1 / 2"
  shows "\<bar>jsSub a b\<bar> \<le> 1 / 2"
proof -
  define H :: int where "H = 2 ^ 1073"
  define n where "n = \<lfloor>(a - b) * real_of_int (2 * H)\<rfloor>"
  have Hpos: "0 < H" by (simp add: H_def)
  have js: "jsSub a b = real_of_int (round53 n) / real_of_int (2 * H)"
    unfolding n_def H_def by (rule jsSub_scaled)
  have "\<bar>n\<bar> \<le> H" unfolding n_def by (rule floor_scaled_within[OF Hpos assms])
  then have "nat \<bar>n\<bar> \<le> nat H" by simp
  moreover have "nat H = 2 ^ 1073" by (simp add: H_def)
  ultimately have "nat \<bar>n\<bar> \<le> 2 ^ 1073" by simp
  then have "roundNat (nat \<bar>n\<bar>) \<le> 2 ^ 1073" by (rule roundNat_upper)
  then have "int (roundNat (nat \<bar>n\<bar>)) \<le> int (2 ^ 1073)" by (simp only: of_nat_le_iff)
  then have "\<bar>round53 n\<bar> \<le> H" unfolding abs_round53 H_def by simp
  then have "real_of_int \<bar>round53 n\<bar> \<le> real_of_int H" by (simp only: of_int_le_iff)
  then have "\<bar>real_of_int (round53 n)\<bar> \<le> real_of_int H" by simp
  then have "\<bar>real_of_int (round53 n)\<bar> / real_of_int (2 * H) \<le> real_of_int H / real_of_int (2 * H)"
    using Hpos by (intro divide_right_mono) simp_all
  also have "\<dots> = 1 / 2" using Hpos by simp
  finally show ?thesis unfolding js using Hpos by (simp add: abs_divide)
qed

lemma jsSub_beyond:
  assumes "1 / 2 + 1 / 2 ^ 53 \<le> \<bar>a - b\<bar>"
  shows "1 / 2 < \<bar>jsSub a b\<bar>"
proof -
  define H :: int where "H = 2 ^ 1073"
  define G :: int where "G = 2 ^ 1021"
  define n where "n = \<lfloor>(a - b) * real_of_int (2 * H)\<rfloor>"
  have Hpos: "0 < H" by (simp add: H_def)
  have Gpos: "0 < G" by (simp add: G_def)
  have GH: "G * 2 ^ 52 = H" by (simp add: G_def H_def)
  have js: "jsSub a b = real_of_int (round53 n) / real_of_int (2 * H)"
    unfolding n_def H_def by (rule jsSub_scaled)
  have "H + G \<le> \<bar>n\<bar>" unfolding n_def by (rule floor_scaled_beyond[OF Hpos GH assms])
  then have "nat (H + G) \<le> nat \<bar>n\<bar>" by simp
  moreover have "nat (H + G) = 2 ^ 1073 + 2 ^ (1073 - 52)" by (simp add: H_def G_def)
  ultimately have "2 ^ 1073 + 2 ^ (1073 - 52) \<le> nat \<bar>n\<bar>" by simp
  then have "2 ^ 1073 + 2 ^ (1073 - 52) \<le> roundNat (nat \<bar>n\<bar>)" by (intro roundNat_lower) simp_all
  then have "int (2 ^ 1073 + 2 ^ (1073 - 52)) \<le> int (roundNat (nat \<bar>n\<bar>))" by (simp only: of_nat_le_iff)
  moreover have "int (2 ^ 1073 + 2 ^ (1073 - 52)) = H + G" by (simp add: H_def G_def)
  ultimately have "H + G \<le> \<bar>round53 n\<bar>" unfolding abs_round53 by simp
  then have "H < \<bar>round53 n\<bar>" using Gpos by simp
  then have "real_of_int H < real_of_int \<bar>round53 n\<bar>" by (simp only: of_int_less_iff)
  then have "real_of_int H < \<bar>real_of_int (round53 n)\<bar>" by simp
  then have "real_of_int H / real_of_int (2 * H) < \<bar>real_of_int (round53 n)\<bar> / real_of_int (2 * H)"
    using Hpos by (intro divide_strict_right_mono) simp_all
  moreover have "real_of_int H / real_of_int (2 * H) = 1 / 2" using Hpos by simp
  ultimately show ?thesis unfolding js using Hpos by (simp add: abs_divide)
qed

lemma bitLength_shift: "0 < m \<Longrightarrow> bitLength (m * 2 ^ t) = bitLength m + t"
proof (induction t)
  case 0
  show ?case by simp
next
  case (Suc t)
  then have "0 < m * 2 ^ t" by simp
  then have "bitLength (2 * (m * 2 ^ t)) = Suc (bitLength (m * 2 ^ t))"
    by (simp add: bitLength_pos)
  then show ?case using Suc by (simp add: mult.commute mult.left_commute)
qed

lemma roundNat_shift:
  assumes "m < 2 ^ 53"
  shows "roundNat (m * 2 ^ t) = m * 2 ^ t"
proof (cases "m = 0")
  case True
  then show ?thesis by (simp add: roundNat_0)
next
  case False
  define k where "k = bitLength (m * 2 ^ t) - 53"
  have bl: "bitLength (m * 2 ^ t) = bitLength m + t" using False by (simp add: bitLength_shift)
  have "bitLength m \<le> 53" using assms by (rule bitLength_le)
  then have kt: "k \<le> t" using k_def bl by simp
  show ?thesis
  proof (cases "k = 0")
    case True
    then show ?thesis using k_def by (simp add: roundNat_def Let_def)
  next
    case k0: False
    have d: "m * 2 ^ t = (m * 2 ^ (t - k)) * 2 ^ k"
      using kt by (simp add: mult.assoc flip: power_add)
    have q: "(m * 2 ^ t) div 2 ^ k = m * 2 ^ (t - k)" by (subst d) simp
    have r: "(m * 2 ^ t) mod 2 ^ k = 0" by (subst d) simp
    have e: "roundNat (m * 2 ^ t) = (m * 2 ^ (t - k)) * 2 ^ k"
      using k0 k_def[symmetric] by (simp add: roundNat_def Let_def q r)
    show ?thesis by (simp only: e d[symmetric])
  qed
qed

lemma round53_shift:
  assumes "\<bar>m\<bar> < 2 ^ 53"
  shows "round53 (m * 2 ^ t) = m * 2 ^ t"
proof -
  have "nat \<bar>m\<bar> < 2 ^ 53" using assms by (simp add: nat_less_iff)
  then have "roundNat (nat \<bar>m\<bar> * 2 ^ t) = nat \<bar>m\<bar> * 2 ^ t" by (rule roundNat_shift)
  moreover have "nat \<bar>m * 2 ^ t\<bar> = nat \<bar>m\<bar> * 2 ^ t"
    by (simp add: abs_mult nat_mult_distrib nat_power_eq)
  ultimately have "int (roundNat (nat \<bar>m * 2 ^ t\<bar>)) = \<bar>m\<bar> * 2 ^ t" by simp
  moreover have "sgn (m * 2 ^ t) = sgn m" by (simp add: sgn_mult)
  ultimately have "round53 (m * 2 ^ t) = sgn m * (\<bar>m\<bar> * 2 ^ t)" by (simp add: round53_def)
  then show ?thesis by (simp add: mult_sgn_abs flip: mult.assoc)
qed

text \<open>A difference that is a short binary fraction is not rounded.\<close>

lemma jsSub_exact:
  assumes "a - b = real_of_int m / 2 ^ j" and "\<bar>m\<bar> < 2 ^ 53" and "j \<le> unitExponent"
  shows "jsSub a b = a - b"
proof -
  define t where "t = unitExponent - j"
  have u: "(2::real) ^ unitExponent = 2 ^ j * 2 ^ t"
    using assms(3) unfolding t_def by (simp flip: power_add)
  have "(a - b) * 2 ^ unitExponent = real_of_int m * 2 ^ t"
    unfolding assms(1) u by simp
  also have "\<dots> = real_of_int (m * 2 ^ t)" by simp
  finally have "\<lfloor>(a - b) * 2 ^ unitExponent\<rfloor> = m * 2 ^ t" by (simp only: floor_of_int)
  then have "jsSub a b = real_of_int (round53 (m * 2 ^ t)) / 2 ^ unitExponent"
    by (simp add: jsSub_def)
  also have "\<dots> = real_of_int (m * 2 ^ t) / (2 ^ j * 2 ^ t)"
    unfolding round53_shift[OF assms(2)] u ..
  also have "\<dots> = real_of_int m / 2 ^ j" by simp
  finally show ?thesis using assms(1) by simp
qed

lemma jsSub_belowHalf: "jsSub 1 belowHalf = 1 / 2"
proof -
  have f: "\<lfloor>(1 - (1 / 2 - 1 / 2 ^ 54)) * 2 ^ 1074 :: real\<rfloor> = 2 ^ 1073 + 2 ^ 1020"
    by simp
  have b: "bitLength (2 ^ 1073 + 2 ^ 1020) = Suc 1073"
    by (rule bitLength_eqI) simp_all
  have r: "roundNat (2 ^ 1073 + 2 ^ 1020) = 2 ^ 1073"
    unfolding roundNat_def b by (simp add: Let_def)
  have "round53 (2 ^ 1073 + 2 ^ 1020) = 2 ^ 1073"
    unfolding round53_def using r by simp
  then show ?thesis unfolding jsSub_def belowHalf_def unitExponent_def f by simp
qed

section \<open>The slug normaliser is idempotent\<close>

lemma hyphen_not_slug: "\<not> isSlugChar (CHR ''-'')"
  by (simp add: isSlugChar_def isLowerAZ_def isDigit_def charCode_def)

lemma slug_not_upper: "isSlugChar c \<Longrightarrow> \<not> isUpperAZ c"
  by (auto simp: isSlugChar_def isLowerAZ_def isDigit_def isUpperAZ_def)

lemma hyphen_not_upper: "\<not> isUpperAZ (CHR ''-'')"
  by (simp add: isUpperAZ_def charCode_def)

lemma replace_head_slug:
  "s = [] \<or> isSlugChar (hd s) \<Longrightarrow>
   replaceNonAlnumRuns s = [] \<or> isSlugChar (hd (replaceNonAlnumRuns s))"
  by (cases s) auto

lemma dropWhile_head: "dropWhile (\<lambda>d. \<not> P d) cs = [] \<or> P (hd (dropWhile (\<lambda>d. \<not> P d) cs))"
  using hd_dropWhile[of "\<lambda>d. \<not> P d" cs] by auto

lemma runsCollapsed_Cons_slug:
  "isSlugChar c \<Longrightarrow> runsCollapsed r \<Longrightarrow> runsCollapsed (c # r)"
  by (cases r) auto

lemma runsCollapsed_Cons_hyphen:
  "r = [] \<or> isSlugChar (hd r) \<Longrightarrow> runsCollapsed r \<Longrightarrow> runsCollapsed (CHR ''-'' # r)"
  by (cases r) auto

lemma runsCollapsed_replace: "runsCollapsed (replaceNonAlnumRuns s)"
proof (induction s rule: replaceNonAlnumRuns.induct)
  case 1
  show ?case by simp
next
  case (2 c cs)
  show ?case
  proof (cases "isSlugChar c")
    case True
    with 2 show ?thesis by (simp add: runsCollapsed_Cons_slug)
  next
    case False
    let ?r = "replaceNonAlnumRuns (dropWhile (\<lambda>d. \<not> isSlugChar d) cs)"
    have "?r = [] \<or> isSlugChar (hd ?r)"
      by (rule replace_head_slug) (rule dropWhile_head)
    moreover have "runsCollapsed ?r" using 2 False by simp
    ultimately show ?thesis using False by (simp add: runsCollapsed_Cons_hyphen)
  qed
qed

lemma replace_fixed: "runsCollapsed s \<Longrightarrow> replaceNonAlnumRuns s = s"
proof (induction s rule: runsCollapsed.induct)
  case 1
  show ?case by simp
next
  case (2 c)
  then show ?case by (auto simp: hyphen_not_slug)
next
  case (3 c d cs)
  then show ?case by (auto simp: hyphen_not_slug)
qed

lemma lower_fixed: "runsCollapsed s \<Longrightarrow> toLowerCase s = s"
proof (induction s rule: runsCollapsed.induct)
  case 1
  show ?case by (simp add: toLowerCase_def)
next
  case (2 c)
  then show ?case by (auto simp: toLowerCase_def toLowerChar_def slug_not_upper hyphen_not_upper)
next
  case (3 c d cs)
  then show ?case by (auto simp: toLowerCase_def toLowerChar_def slug_not_upper hyphen_not_upper)
qed

lemma runsCollapsed_tl: "runsCollapsed (c # s) \<Longrightarrow> runsCollapsed s"
  by (cases s) auto

lemma runsCollapsed_dropWhile: "runsCollapsed s \<Longrightarrow> runsCollapsed (dropWhile P s)"
  by (induction s) (auto dest: runsCollapsed_tl)

lemma runsCollapsed_butlast: "runsCollapsed s \<Longrightarrow> runsCollapsed (butlast s)"
  by (induction s rule: runsCollapsed.induct) (auto split: if_splits)

lemma runsCollapsed_dropWhile_rev:
  "runsCollapsed s \<Longrightarrow> runsCollapsed (rev (dropWhile P (rev s)))"
proof (induction s rule: rev_induct)
  case Nil
  show ?case by simp
next
  case (snoc x xs)
  have "runsCollapsed xs" using runsCollapsed_butlast[OF snoc.prems] by simp
  with snoc show ?case by auto
qed

lemma runsCollapsed_strip: "runsCollapsed s \<Longrightarrow> runsCollapsed (stripHyphens s)"
  unfolding stripHyphens_def
  by (intro runsCollapsed_dropWhile_rev runsCollapsed_dropWhile)

lemma rev_dropWhile_rev_take: "\<exists>n. rev (dropWhile P (rev u)) = take n u"
proof -
  have "rev (dropWhile P (rev u)) = rev (drop (length (takeWhile P (rev u))) (rev u))"
    by (simp add: dropWhile_eq_drop)
  also have "\<dots> = take (length u - length (takeWhile P (rev u))) u"
    by (simp add: rev_drop)
  finally show ?thesis by blast
qed

lemma dropWhile_head_not: "dropWhile P cs = [] \<or> \<not> P (hd (dropWhile P cs))"
  using hd_dropWhile[of P cs] by blast

lemma strip_no_lead: "stripHyphens s = [] \<or> hd (stripHyphens s) \<noteq> CHR ''-''"
proof -
  let ?H = "\<lambda>c. c = CHR ''-''"
  let ?u = "dropWhile ?H s"
  have "\<exists>n. rev (dropWhile ?H (rev ?u)) = take n ?u"
    by (rule rev_dropWhile_rev_take)
  then obtain n where "rev (dropWhile ?H (rev ?u)) = take n ?u" ..
  then have n: "stripHyphens s = take n ?u" by (simp add: stripHyphens_def)
  have u: "?u = [] \<or> hd ?u \<noteq> CHR ''-''"
    by (rule dropWhile_head_not)
  show ?thesis
  proof (cases "n = 0 \<or> ?u = []")
    case True
    then show ?thesis unfolding n by auto
  next
    case False
    then have "hd (take n ?u) = hd ?u" by (simp add: hd_take)
    then show ?thesis unfolding n using u False by simp
  qed
qed

lemma strip_no_trail: "stripHyphens s = [] \<or> last (stripHyphens s) \<noteq> CHR ''-''"
proof -
  define v where "v = dropWhile (\<lambda>c. c = CHR ''-'') (rev (dropWhile (\<lambda>c. c = CHR ''-'') s))"
  have v: "v = [] \<or> hd v \<noteq> CHR ''-''"
    unfolding v_def by (rule dropWhile_head_not)
  have r: "stripHyphens s = rev v" by (simp add: stripHyphens_def v_def)
  show ?thesis
  proof (cases "v = []")
    case True
    then show ?thesis unfolding r by simp
  next
    case False
    have "last (rev v) = hd v" by (simp add: last_rev)
    then show ?thesis unfolding r using v False by simp
  qed
qed

lemma strip_fixed:
  assumes "t = [] \<or> hd t \<noteq> CHR ''-''" and "t = [] \<or> last t \<noteq> CHR ''-''"
  shows "stripHyphens t = t"
proof (cases "t = []")
  case True
  then show ?thesis by (simp add: stripHyphens_def)
next
  case False
  then have a: "dropWhile (\<lambda>c. c = CHR ''-'') t = t"
    using assms(1) by (cases t) auto
  have "dropWhile (\<lambda>c. c = CHR ''-'') (rev t) = rev t"
    using assms(2) False by (cases "rev t") (auto simp: last_rev hd_rev)
  then show ?thesis using a by (simp add: stripHyphens_def)
qed

lemma strip_idem: "stripHyphens (stripHyphens s) = stripHyphens s"
  by (rule strip_fixed) (rule strip_no_lead, rule strip_no_trail)

text \<open>
  Claim C7. \<^verbatim>\<open>toSlug\<close> is idempotent: for every string \<open>x\<close>, the slug of the slug of \<open>x\<close>
  is the slug of \<open>x\<close>; every output of \<^verbatim>\<open>toSlug\<close> is a fixed point of it.
\<close>

theorem toSlug_idempotent: "toSlug (toSlug x) = toSlug x"
proof (cases "toSlug x = []")
  case True
  then show ?thesis by (simp add: toSlug_def)
next
  case False
  then have x: "x \<noteq> []" by (auto simp: toSlug_def)
  let ?r = "replaceNonAlnumRuns (toLowerCase x)"
  have t: "toSlug x = stripHyphens ?r" using x by (simp add: toSlug_def)
  have rc: "runsCollapsed (toSlug x)"
    unfolding t by (rule runsCollapsed_strip) (rule runsCollapsed_replace)
  have "toSlug (toSlug x) = stripHyphens (replaceNonAlnumRuns (toLowerCase (toSlug x)))"
    using False by (simp add: toSlug_def)
  also have "\<dots> = stripHyphens (toSlug x)"
    using rc by (simp add: lower_fixed replace_fixed)
  also have "\<dots> = toSlug x" unfolding t by (rule strip_idem)
  finally show ?thesis .
qed

section \<open>Column letters are the spreadsheet numeral, while the arithmetic is exact\<close>

lemma base26_Cons: "base26_value (d # ds) = d * 26 ^ length ds + base26_value ds"
proof -
  have "base26_value (d # ds) = (\<Sum>i<Suc (length ds). (d # ds) ! i * 26 ^ (length ds - i))"
    by (simp add: base26_value_def)
  also have "\<dots> = (d # ds) ! 0 * 26 ^ (length ds - 0)
                   + (\<Sum>i<length ds. (d # ds) ! Suc i * 26 ^ (length ds - Suc i))"
    by (rule sum.lessThan_Suc_shift)
  finally show ?thesis by (simp add: base26_value_def)
qed

lemma letterDigit_range: "isLetter c \<Longrightarrow> 1 \<le> letterDigit c \<and> letterDigit c \<le> 26"
  by (auto simp: letterDigit_def isLetter_def isLowerAZ_def isUpperAZ_def)

lemma upperUnits_letter:
  assumes "isLetter c"
  shows "map (\<lambda>u. int u - 64) (upperUnits c) = [letterDigit c]"
proof (cases "isLowerAZ c")
  case True
  then have "97 \<le> charCode c" by (simp add: isLowerAZ_def)
  then have "int (charCode c - 32) - 64 = int (charCode c) - 96" by simp
  with True show ?thesis by (simp add: upperUnits_def letterDigit_def)
next
  case False
  with assms have "isUpperAZ c" by (simp add: isLetter_def)
  then have "charCode c \<le> 90" by (simp add: isUpperAZ_def)
  with False show ?thesis by (simp add: upperUnits_def letterDigit_def)
qed

lemma toUpperCase_letters:
  "list_all isLetter s \<Longrightarrow> map (\<lambda>u. int u - 64) (toUpperCase s) = map letterDigit s"
  by (induction s) (simp_all add: toUpperCase_def upperUnits_letter)

lemma toUpperCase_append: "toUpperCase (s @ t) = toUpperCase s @ toUpperCase t"
  by (simp add: toUpperCase_def)

lemma base26_value_bound:
  "list_all (\<lambda>d. 1 \<le> d \<and> d \<le> 26) ds \<Longrightarrow> 0 \<le> base26_value ds \<and> base26_value ds < 27 ^ length ds"
proof (induction ds)
  case Nil
  show ?case by (simp add: base26_value_def)
next
  case (Cons d ds)
  then have ih: "0 \<le> base26_value ds" "base26_value ds < 27 ^ length ds" and d: "1 \<le> d" "d \<le> 26"
    by simp_all
  have p: "(26::int) ^ length ds \<le> 27 ^ length ds" by (rule power_mono) simp_all
  have "d * 26 ^ length ds \<le> 26 * 27 ^ length ds"
    using d p by (intro mult_mono) simp_all
  moreover have "0 \<le> d * 26 ^ length ds" using d by simp
  ultimately show ?case using ih by (simp add: base26_Cons)
qed

text \<open>
  While the numeral stays below \<open>2 ^ 53\<close> no step of the loop rounds, and the loop
  computes the numeral.
\<close>

lemma colLoop_exact:
  assumes "list_all (\<lambda>d. 1 \<le> d \<and> d \<le> 26) (map (\<lambda>c. int c - 64) cs)"
    and "0 \<le> r"
    and "r * 26 ^ length cs + base26_value (map (\<lambda>c. int c - 64) cs) < 2 ^ 53"
  shows "colLoop cs (Fin r) =
           Fin (r * 26 ^ length cs + base26_value (map (\<lambda>c. int c - 64) cs))"
  using assms
proof (induction cs arbitrary: r)
  case Nil
  show ?case by (simp add: base26_value_def)
next
  case (Cons c cs)
  let ?dig = "\<lambda>c. int c - 64"
  let ?B = "base26_value (map ?dig cs)"
  let ?p = "(26::int) ^ length cs"
  from Cons.prems(1) have d: "1 \<le> ?dig c" "?dig c \<le> 26"
    and ds: "list_all (\<lambda>d. 1 \<le> d \<and> d \<le> 26) (map ?dig cs)"
    by simp_all
  have B0: "0 \<le> ?B" using base26_value_bound[OF ds] by simp
  have p1: "1 \<le> ?p" by simp
  have fin: "(r * 26 + ?dig c) * ?p + ?B < 2 ^ 53"
    using Cons.prems(3) by (simp add: base26_Cons algebra_simps)
  have r26: "0 \<le> r * 26" using Cons.prems(2) by simp
  have s0: "0 \<le> r * 26 + ?dig c" using r26 d by simp
  have "(r * 26 + ?dig c) * 1 \<le> (r * 26 + ?dig c) * ?p"
    using s0 p1 by (rule mult_left_mono[rotated])
  then have s1: "r * 26 + ?dig c < 2 ^ 53" using fin B0 by simp
  then have s2: "r * 26 < 2 ^ 53" using d by simp
  have m: "jsMul (Fin r) 26 = Fin (r * 26)"
    using r26 s2 by (simp add: jsMul_def toDouble_small)
  have a: "jsAdd (Fin (r * 26)) (?dig c) = Fin (r * 26 + ?dig c)"
    using s0 s1 by (simp add: jsAdd_def toDouble_small)
  have "colLoop (c # cs) (Fin r) = colLoop cs (Fin (r * 26 + ?dig c))"
    by (simp add: m a)
  also have "\<dots> = Fin ((r * 26 + ?dig c) * ?p + ?B)"
    using ds s0 fin by (rule Cons.IH)
  finally show ?case by (simp add: base26_Cons algebra_simps)
qed

lemma colLoop_letters:
  assumes "list_all isLetter s" and "base26_value (map letterDigit s) < 2 ^ 53"
  shows "colLoop (toUpperCase s) (Fin 0) = Fin (base26_value (map letterDigit s))"
proof -
  let ?dig = "\<lambda>u. int u - 64"
  have e: "map ?dig (toUpperCase s) = map letterDigit s"
    using assms(1) by (rule toUpperCase_letters)
  have r: "list_all (\<lambda>d. 1 \<le> d \<and> d \<le> 26) (map letterDigit s)"
    using assms(1) by (simp add: list_all_iff letterDigit_range)
  have "colLoop (toUpperCase s) (Fin 0) =
          Fin (0 * 26 ^ length (toUpperCase s) + base26_value (map ?dig (toUpperCase s)))"
    using r assms(2) unfolding e[symmetric] by (intro colLoop_exact) simp_all
  then show ?thesis unfolding e by simp
qed

lemma colLetterToIndex_exact:
  assumes "list_all isLetter s" and "base26_value (map letterDigit s) < 2 ^ 53"
  shows "colLetterToIndex s = Fin (base26_value (map letterDigit s) - 1)"
proof -
  have r: "list_all (\<lambda>d. 1 \<le> d \<and> d \<le> 26) (map letterDigit s)"
    using assms(1) by (simp add: list_all_iff letterDigit_range)
  have B0: "0 \<le> base26_value (map letterDigit s)" using base26_value_bound[OF r] by simp
  have c: "colLoop (toUpperCase s) (Fin 0) = Fin (base26_value (map letterDigit s))"
    using assms by (rule colLoop_letters)
  have "\<bar>base26_value (map letterDigit s) + - 1\<bar> < 2 ^ 53" using B0 assms(2) by simp
  then show ?thesis
    unfolding colLetterToIndex_def Let_def c by (simp add: jsAdd_def toDouble_small)
qed

lemma short_numeral_small:
  assumes "list_all isLetter s" and "length s \<le> 11"
  shows "base26_value (map letterDigit s) < 2 ^ 53"
proof -
  have "list_all (\<lambda>d. 1 \<le> d \<and> d \<le> 26) (map letterDigit s)"
    using assms(1) by (simp add: list_all_iff letterDigit_range)
  from base26_value_bound[OF this]
  have "base26_value (map letterDigit s) < 27 ^ length s" by simp
  also have "(27::int) ^ length s \<le> 27 ^ 11" using assms(2) by (intro power_increasing) simp_all
  also have "\<dots> < 2 ^ 53" by simp
  finally show ?thesis .
qed

lemma sample_numerals:
  "base26_value (map letterDigit ''A'') = 1" "base26_value (map letterDigit ''Z'') = 26"
  "base26_value (map letterDigit ''AA'') = 27" "base26_value (map letterDigit ''AB'') = 28"
  "base26_value (map letterDigit ''B'') = 2" "base26_value (map letterDigit ''C'') = 3"
  "base26_value (map letterDigit ''D'') = 4"
  "base26_value (map letterDigit ''XFD'') = 16384"
  "base26_value (map letterDigit ''ZZZZZZZ'') = 8353082582"
  "base26_value (map letterDigit ''ZZZZZZZZZZZ'') = 3817158266467286"
  "base26_value (map letterDigit ''ZZZZZZZZZZZZ'') = 99246114928149462"
  by code_simp+

lemma sample_letters:
  "list_all isLetter ''A''" "list_all isLetter ''Z''" "list_all isLetter ''AA''"
  "list_all isLetter ''AB''" "list_all isLetter ''B''" "list_all isLetter ''C''"
  "list_all isLetter ''D''" "list_all isLetter ''XFD''" "list_all isLetter ''ZZZZZZZ''"
  "list_all isLetter ''ZZZZZZZZZZZ''" "list_all isLetter ''ZZZZZZZZZZZZ''"
  by code_simp+

lemma colLetterToIndex_value:
  assumes "list_all isLetter s" and "base26_value (map letterDigit s) = v" and "v < 2 ^ 53"
  shows "colLetterToIndex s = Fin (v - 1)"
  using colLetterToIndex_exact[OF assms(1)] assms(2,3) by simp

lemma sample_indices:
  "colLetterToIndex ''A'' = Fin 0" "colLetterToIndex ''Z'' = Fin 25"
  "colLetterToIndex ''AA'' = Fin 26" "colLetterToIndex ''AB'' = Fin 27"
  "colLetterToIndex ''B'' = Fin 1" "colLetterToIndex ''C'' = Fin 2"
  "colLetterToIndex ''D'' = Fin 3" "colLetterToIndex ''ZZZZZZZ'' = Fin 8353082581"
  using colLetterToIndex_value[OF sample_letters(1) sample_numerals(1)]
    colLetterToIndex_value[OF sample_letters(2) sample_numerals(2)]
    colLetterToIndex_value[OF sample_letters(3) sample_numerals(3)]
    colLetterToIndex_value[OF sample_letters(4) sample_numerals(4)]
    colLetterToIndex_value[OF sample_letters(5) sample_numerals(5)]
    colLetterToIndex_value[OF sample_letters(6) sample_numerals(6)]
    colLetterToIndex_value[OF sample_letters(7) sample_numerals(7)]
    colLetterToIndex_value[OF sample_letters(9) sample_numerals(9)]
  by simp_all

lemma colLoop_append: "colLoop (xs @ ys) r = colLoop ys (colLoop xs r)"
  by (induction xs arbitrary: r) simp_all

lemma round53_eval:
  "round53 99246114928149436 = 99246114928149440"
  "round53 99246114928149466 = 99246114928149472"
  "round53 99246114928149471 = 99246114928149472"
  "round53 99246114928149465 = 99246114928149472"
  "round53 99246114928149473 = 99246114928149472"
  by (simp_all add: round53_def roundNat_def bitLength.simps Let_def)

lemma eleven_Z: "colLoop (toUpperCase ''ZZZZZZZZZZZ'') (Fin 0) = Fin 3817158266467286"
proof -
  have "base26_value (map letterDigit ''ZZZZZZZZZZZ'') < 2 ^ 53"
    unfolding sample_numerals by simp
  from colLoop_letters[OF sample_letters(10) this] show ?thesis
    unfolding sample_numerals .
qed

lemma twelve_Z: "colLetterToIndex ''ZZZZZZZZZZZZ'' = Fin 99246114928149472"
proof -
  have u: "toUpperCase ''ZZZZZZZZZZZZ'' = toUpperCase ''ZZZZZZZZZZZ'' @ [90]"
    by code_simp
  have "colLoop [90] (Fin 3817158266467286) = Fin 99246114928149472"
    by (simp add: jsMul_def jsAdd_def toDouble_def round53_eval)
  then have "colLoop (toUpperCase ''ZZZZZZZZZZZZ'') (Fin 0) = Fin 99246114928149472"
    unfolding u colLoop_append eleven_Z .
  then show ?thesis
    unfolding colLetterToIndex_def Let_def by (simp add: jsAdd_def toDouble_def round53_eval)
qed

lemma twelve_ZY: "colLetterToIndex ''ZZZZZZZZZZZY'' = Fin 99246114928149472"
proof -
  have u: "toUpperCase ''ZZZZZZZZZZZY'' = toUpperCase ''ZZZZZZZZZZZ'' @ [89]"
    by code_simp
  have "colLoop [89] (Fin 3817158266467286) = Fin 99246114928149472"
    by (simp add: jsMul_def jsAdd_def toDouble_def round53_eval)
  then have "colLoop (toUpperCase ''ZZZZZZZZZZZY'') (Fin 0) = Fin 99246114928149472"
    unfolding u colLoop_append eleven_Z .
  then show ?thesis
    unfolding colLetterToIndex_def Let_def by (simp add: jsAdd_def toDouble_def round53_eval)
qed

lemma stuck_at_twelve_Z: "jsAdd (Fin 99246114928149472) 1 = Fin 99246114928149472"
  by (simp add: jsAdd_def toDouble_def round53_eval)

text \<open>
  Claim C8, as the code has it. \<^verbatim>\<open>colLetterToIndex\<close> gives 0 for "A", 25 for "Z", 26
  for "AA" and 27 for "AB", and for every non-empty string of at most eleven letters,
  and for every longer one whose numeral is below \<open>2 ^ 53\<close>, it is the value of the
  string read as a numeral in base 26 whose digits run from 1 to 26, minus 1. (Up to
  eleven letters the numeral is below \<open>2 ^ 53\<close>, and below \<open>2 ^ 53\<close> the arithmetic of
  the language is exact.)
\<close>

theorem colLetterToIndex_base26:
  assumes "s \<noteq> []" and "list_all isLetter s"
    and "length s \<le> 11 \<or> base26_value (map letterDigit s) < 2 ^ 53"
  shows "colLetterToIndex ''A'' = Fin 0 \<and> colLetterToIndex ''Z'' = Fin 25 \<and>
         colLetterToIndex ''AA'' = Fin 26 \<and> colLetterToIndex ''AB'' = Fin 27 \<and>
         colLetterToIndex s = Fin (base26_value (map letterDigit s) - 1) \<and>
         list_all (\<lambda>d. 1 \<le> d \<and> d \<le> 26) (map letterDigit s)"
proof -
  have "list_all (\<lambda>d. 1 \<le> d \<and> d \<le> 26) (map letterDigit s)"
    using assms(2) by (simp add: list_all_iff letterDigit_range)
  moreover have "base26_value (map letterDigit s) < 2 ^ 53"
    using assms(3) short_numeral_small[OF assms(2)] by blast
  then have "colLetterToIndex s = Fin (base26_value (map letterDigit s) - 1)"
    using assms(2) by (intro colLetterToIndex_exact)
  ultimately show ?thesis by (simp add: sample_indices)
qed

theorem colLetterToIndex_base26_witness:
  "''XFD'' \<noteq> [] \<and> list_all isLetter ''XFD'' \<and> length ''XFD'' \<le> 11 \<and>
   base26_value (map letterDigit ''XFD'') < 2 ^ 53 \<and>
   colLetterToIndex ''XFD'' = Fin (base26_value (map letterDigit ''XFD'') - 1) \<and>
   base26_value (map letterDigit ''XFD'') = 24 * 26 ^ 2 + 6 * 26 + 4 \<and>
   colLetterToIndex ''XFD'' = Fin 16383"
proof -
  have h1: "''XFD'' \<noteq> []" by simp
  have h2: "list_all isLetter ''XFD''" by (rule sample_letters)
  have h3: "length ''XFD'' \<le> 11" by simp
  then have h4: "length ''XFD'' \<le> 11 \<or> base26_value (map letterDigit ''XFD'') < 2 ^ 53" ..
  have h5: "base26_value (map letterDigit ''XFD'') < 2 ^ 53" unfolding sample_numerals by simp
  have v: "base26_value (map letterDigit ''XFD'') = 24 * 26 ^ 2 + 6 * 26 + 4"
    unfolding sample_numerals by simp
  from colLetterToIndex_base26[OF h1 h2 h4]
  have "colLetterToIndex ''XFD'' = Fin (base26_value (map letterDigit ''XFD'') - 1)" by simp
  with h1 h2 h3 h5 v show ?thesis by simp
qed

text \<open>
  The claim as the specification states it, for every letter string, fails at twelve
  letters: the numeral of twelve Z is 99246114928149462, and the loop, rounding from the
  twelfth letter on, returns 99246114928149472 and not 99246114928149461.
\<close>

theorem colLetterToIndex_rounds:
  "''ZZZZZZZZZZZZ'' \<noteq> [] \<and> list_all isLetter ''ZZZZZZZZZZZZ'' \<and>
   base26_value (map letterDigit ''ZZZZZZZZZZZZ'') - 1 = 99246114928149461 \<and>
   colLetterToIndex ''ZZZZZZZZZZZZ'' = Fin 99246114928149472 \<and>
   colLetterToIndex ''ZZZZZZZZZZZZ'' \<noteq> Fin (base26_value (map letterDigit ''ZZZZZZZZZZZZ'') - 1)"
  using twelve_Z sample_letters(11) sample_numerals(11) by simp

section \<open>The validator is the greedy nearest match\<close>

lemma one_le_MAX_VALUE: "1 \<le> MAX_VALUE"
proof -
  have a: "(1::real) \<le> 2 ^ 53 - 1" by simp
  have b: "(1::real) \<le> 2 ^ 971" by (rule one_le_power) simp
  have "(1::real) * 1 \<le> (2 ^ 53 - 1) * 2 ^ 971"
    using a b by (intro mult_mono) simp_all
  then show ?thesis by (simp add: MAX_VALUE_def)
qed

lemma tolerance_lt_MAX_VALUE: "TOLERANCE < MAX_VALUE"
  using one_le_MAX_VALUE by (simp add: TOLERANCE_def)

lemma scanPool_keep:
  "(\<forall>v\<in>set vs. computedDiff ex v \<le> TOLERANCE \<longrightarrow> m \<le> computedDiff ex v) \<Longrightarrow>
   scanPool ex vs j (b, m) = (b, m)"
  by (induction vs arbitrary: j) (auto simp: Let_def computedDiff_def)

lemma scanPool_first_min:
  assumes "computedDiff ex d \<le> TOLERANCE" and "computedDiff ex d < m"
    and "\<forall>u\<in>set us. computedDiff ex u \<le> TOLERANCE \<longrightarrow> computedDiff ex d < computedDiff ex u"
    and "\<forall>v\<in>set vs. computedDiff ex v \<le> TOLERANCE \<longrightarrow> computedDiff ex d \<le> computedDiff ex v"
  shows "scanPool ex (us @ d # vs) i (b, m) = (int (i + length us), computedDiff ex d)"
  using assms(2,3)
proof (induction us arbitrary: i b m)
  case Nil
  have "scanPool ex (d # vs) i (b, m) = scanPool ex vs (i + 1) (int i, computedDiff ex d)"
    using assms(1) Nil(1) by (simp add: computedDiff_def)
  also have "\<dots> = (int i, computedDiff ex d)"
    using assms(4) by (intro scanPool_keep) simp
  finally show ?case by simp
next
  case (Cons u us)
  show ?case
  proof (cases "computedDiff ex u \<le> TOLERANCE \<and> computedDiff ex u < m")
    case True
    have "scanPool ex (us @ d # vs) (i + 1) (int i, computedDiff ex u)
            = (int (i + 1 + length us), computedDiff ex d)"
      using Cons.prems True by (intro Cons.IH) auto
    then show ?thesis using True by (simp add: computedDiff_def)
  next
    case False
    have "scanPool ex (us @ d # vs) (i + 1) (b, m) = (int (i + 1 + length us), computedDiff ex d)"
      using Cons.prems by (intro Cons.IH) auto
    then show ?thesis using False by (auto simp: computedDiff_def)
  qed
qed

lemma first_min_split:
  assumes "\<exists>x\<in>set xs. W x"
  shows "\<exists>us d vs. xs = us @ d # vs \<and> W d \<and>
           (\<forall>u\<in>set us. W u \<longrightarrow> f d < f u) \<and> (\<forall>v\<in>set vs. W v \<longrightarrow> (f d :: real) \<le> f v)"
  using assms
proof (induction xs)
  case Nil
  then show ?case by simp
next
  case (Cons x xs)
  show ?case
  proof (cases "\<exists>y\<in>set xs. W y")
    case False
    with Cons.prems have "W x" by auto
    with False have "x # xs = [] @ x # xs \<and> W x \<and>
           (\<forall>u\<in>set []. W u \<longrightarrow> f x < f u) \<and> (\<forall>v\<in>set xs. W v \<longrightarrow> f x \<le> f v)"
      by auto
    then show ?thesis by blast
  next
    case True
    from Cons.IH[OF this] obtain us d vs where s: "xs = us @ d # vs" "W d"
      "\<forall>u\<in>set us. W u \<longrightarrow> f d < f u" "\<forall>v\<in>set vs. W v \<longrightarrow> f d \<le> f v"
      by blast
    show ?thesis
    proof (cases "W x \<and> f x \<le> f d")
      case True
      have "\<forall>v\<in>set xs. W v \<longrightarrow> f x \<le> f v"
        using s True by (auto simp: less_imp_le order_trans dest!: bspec)
      with True have "x # xs = [] @ x # xs \<and> W x \<and>
           (\<forall>u\<in>set []. W u \<longrightarrow> f x < f u) \<and> (\<forall>v\<in>set xs. W v \<longrightarrow> f x \<le> f v)"
        by auto
      then show ?thesis by blast
    next
      case False
      with s have "x # xs = (x # us) @ d # vs \<and> W d \<and>
           (\<forall>u\<in>set (x # us). W u \<longrightarrow> f d < f u) \<and> (\<forall>v\<in>set vs. W v \<longrightarrow> f d \<le> f v)"
        by auto
      then show ?thesis by blast
    qed
  qed
qed

lemma arg_min_list_first:
  assumes "\<forall>u\<in>set us. f d < f u" and "\<forall>v\<in>set vs. (f d :: real) \<le> f v"
  shows "arg_min_list f (us @ d # vs) = d"
  using assms(1)
proof (induction us)
  case Nil
  show ?case
  proof (cases vs)
    case Nil
    then show ?thesis by simp
  next
    case (Cons v vs')
    have "arg_min_list f (v # vs') \<in> set (v # vs')" by (rule arg_min_list_in) simp
    then have "f d \<le> f (arg_min_list f (v # vs'))" using assms(2) Cons by blast
    then show ?thesis using Cons by (simp add: Let_def)
  qed
next
  case (Cons u us)
  then have ih: "arg_min_list f (us @ d # vs) = d" and lt: "f d < f u" by auto
  obtain y ys where e: "us @ d # vs = y # ys" by (cases "us @ d # vs") auto
  have "arg_min_list f (u # y # ys) = (let m = arg_min_list f (y # ys) in if f u \<le> f m then u else m)"
    by simp
  then show ?case using ih lt e by (simp add: Let_def)
qed


lemma nearest_by_alt:
  "nearest_by gap e pool =
     (let near = filter (\<lambda>d. gap e d \<le> TOLERANCE) pool
      in if near = [] then None else Some (arg_min_list (\<lambda>d. gap e d) near))"
  by (simp add: nearest_by_def TOLERANCE_def)

lemma nearest_by_None:
  assumes "\<forall>x\<in>set pool. \<not> gap ex x \<le> TOLERANCE"
  shows "nearest_by gap ex pool = None"
proof -
  have "filter (\<lambda>d. gap ex d \<le> TOLERANCE) pool = []"
    using assms by (simp add: filter_empty_conv)
  then show ?thesis by (simp add: nearest_by_alt)
qed

lemma scanPool_None:
  assumes "\<forall>x\<in>set pool. \<not> computedDiff ex x \<le> TOLERANCE"
  shows "scanPool ex pool 0 (- 1, MAX_VALUE) = (- 1, MAX_VALUE)"
  using assms by (intro scanPool_keep) simp

lemma nearest_by_Some:
  assumes "gap ex d \<le> TOLERANCE"
    and "\<forall>u\<in>set us. gap ex u \<le> TOLERANCE \<longrightarrow> gap ex d < gap ex u"
    and "\<forall>v\<in>set vs. gap ex v \<le> TOLERANCE \<longrightarrow> gap ex d \<le> gap ex v"
  shows "nearest_by gap ex (us @ d # vs) = Some d"
proof -
  let ?W = "\<lambda>d. gap ex d \<le> TOLERANCE"
  have f: "filter ?W (us @ d # vs) = filter ?W us @ d # filter ?W vs"
    using assms(1) by simp
  have "arg_min_list (\<lambda>d. gap ex d) (filter ?W us @ d # filter ?W vs) = d"
    using assms(2,3) by (intro arg_min_list_first) simp_all
  then show ?thesis unfolding nearest_by_alt f by (simp add: Let_def)
qed

lemma scanPool_Some:
  assumes "computedDiff ex d \<le> TOLERANCE"
    and "\<forall>u\<in>set us. computedDiff ex u \<le> TOLERANCE \<longrightarrow> computedDiff ex d < computedDiff ex u"
    and "\<forall>v\<in>set vs. computedDiff ex v \<le> TOLERANCE \<longrightarrow> computedDiff ex d \<le> computedDiff ex v"
  shows "scanPool ex (us @ d # vs) 0 (- 1, MAX_VALUE) = (int (length us), computedDiff ex d)"
proof -
  have "computedDiff ex d < MAX_VALUE" using assms(1) tolerance_lt_MAX_VALUE by simp
  from scanPool_first_min[OF assms(1) this assms(2,3), of 0 "- 1"] show ?thesis by simp
qed

lemma first_min_not_before:
  assumes "computedDiff ex d \<le> TOLERANCE"
    and "\<forall>u\<in>set us. computedDiff ex u \<le> TOLERANCE \<longrightarrow> computedDiff ex d < computedDiff ex u"
  shows "d \<notin> set us"
  using assms by auto

lemma splice1_middle: "splice1 (us @ d # vs) (length us) = us @ vs"
  by (simp add: splice1_def)

lemma remove1_middle: "d \<notin> set us \<Longrightarrow> remove1 d (us @ d # vs) = us @ vs"
  by (simp add: remove1_append)

lemma matchLoop_step_Some:
  assumes "computedDiff ex d \<le> TOLERANCE"
    and "\<forall>u\<in>set us. computedDiff ex u \<le> TOLERANCE \<longrightarrow> computedDiff ex d < computedDiff ex u"
    and "\<forall>v\<in>set vs. computedDiff ex v \<le> TOLERANCE \<longrightarrow> computedDiff ex d \<le> computedDiff ex v"
  shows "matchLoop (ex # es) (ms, mis, us @ d # vs) =
           matchLoop es (ms @ [\<lparr>expected = ex, detected = d, diff = computedDiff ex d\<rparr>], mis,
                         remove1 d (us @ d # vs))"
proof -
  have sp: "scanPool ex (us @ d # vs) 0 (- 1, MAX_VALUE) = (int (length us), computedDiff ex d)"
    by (rule scanPool_Some[OF assms])
  have nb: "d \<notin> set us" by (rule first_min_not_before[OF assms(1,2)])
  have a: "(us @ d # vs) ! length us = d" by simp
  have b: "splice1 (us @ d # vs) (length us) = remove1 d (us @ d # vs)"
    by (simp add: splice1_middle remove1_middle[OF nb])
  show ?thesis by (simp add: sp a b del: remove1_append)
qed

lemma matchLoop_greedy:
  "matchLoop es (ms, mis, pool) =
     (case greedy_by computedDiff es pool of (p, q, r) \<Rightarrow> (ms @ p, mis @ q, r))"
proof (induction es arbitrary: ms mis pool)
  case Nil
  show ?case by simp
next
  case (Cons ex es)
  show ?case
  proof (cases "\<exists>x\<in>set pool. computedDiff ex x \<le> TOLERANCE")
    case False
    then have n: "\<forall>x\<in>set pool. \<not> computedDiff ex x \<le> TOLERANCE" by simp
    show ?thesis
      by (simp add: scanPool_None[OF n] nearest_by_None[of pool computedDiff ex, OF n] Cons.IH split: prod.split)
  next
    case True
    from first_min_split[OF True, of "\<lambda>d. computedDiff ex d"]
    obtain us d vs where s: "pool = us @ d # vs" "computedDiff ex d \<le> TOLERANCE"
      "\<forall>u\<in>set us. computedDiff ex u \<le> TOLERANCE \<longrightarrow> computedDiff ex d < computedDiff ex u"
      "\<forall>v\<in>set vs. computedDiff ex v \<le> TOLERANCE \<longrightarrow> computedDiff ex d \<le> computedDiff ex v"
      by blast
    have nw: "nearest_by computedDiff ex pool = Some d"
      unfolding s(1) by (rule nearest_by_Some[of computedDiff ex d us vs, OF s(2,3,4)])
    have "matchLoop (ex # es) (ms, mis, pool) =
            matchLoop es (ms @ [\<lparr>expected = ex, detected = d, diff = computedDiff ex d\<rparr>], mis,
                          remove1 d pool)"
      unfolding s(1) by (rule matchLoop_step_Some[OF s(2,3,4)])
    also have "\<dots> = (case greedy_by computedDiff es (remove1 d pool) of
                       (p, q, r) \<Rightarrow> ((ms @ [\<lparr>expected = ex, detected = d, diff = computedDiff ex d\<rparr>]) @ p,
                                     mis @ q, r))"
      by (rule Cons.IH)
    also have "\<dots> = (case greedy_by computedDiff (ex # es) pool of (p, q, r) \<Rightarrow> (ms @ p, mis @ q, r))"
      by (simp add: nw split: prod.split)
    finally show ?thesis .
  qed
qed

lemma classify_status_ref: "classify mis ext = status_ref mis ext"
  by (cases mis; cases ext) (simp_all add: classify_def status_ref_def)

lemma validateDimensions_eq_ref:
  "validateDimensions det spec = validate_by computedDiff det spec"
  by (simp add: validateDimensions_def validate_by_def matchLoop_greedy classify_status_ref
        split: prod.split)

lemma nearest_by_SomeD:
  assumes "nearest_by gap e pool = Some d"
  shows "d \<in> set pool" and "gap e d \<le> TOLERANCE"
proof -
  let ?near = "filter (\<lambda>d. gap e d \<le> TOLERANCE) pool"
  from assms have ne: "?near \<noteq> []" and d: "d = arg_min_list (\<lambda>d. gap e d) ?near"
    by (auto simp: nearest_by_alt Let_def split: if_splits)
  have "d \<in> set ?near" unfolding d by (rule arg_min_list_in[OF ne])
  then show "d \<in> set pool" and "gap e d \<le> TOLERANCE" by simp_all
qed

lemma nearest_by_NoneD:
  assumes "nearest_by gap e pool = None" and "x \<in> set pool"
  shows "TOLERANCE < gap e x"
proof -
  from assms(1) have "filter (\<lambda>d. gap e d \<le> TOLERANCE) pool = []"
    by (auto simp: nearest_by_alt Let_def split: if_splits)
  with assms(2) show ?thesis by (auto simp: filter_empty_conv)
qed

lemma greedy_by_mset:
  "greedy_by gap es pool = (p, q, r) \<Longrightarrow>
   mset (map detected p) + mset r = mset pool \<and> mset (map expected p) + mset q = mset es"
proof (induction es arbitrary: pool p q r)
  case Nil
  then show ?case by simp
next
  case (Cons e es)
  show ?case
  proof (cases "nearest_by gap e pool")
    case None
    obtain p' q' r' where g: "greedy_by gap es pool = (p', q', r')" by (cases "greedy_by gap es pool")
    with Cons.prems None have "p = p'" "q = e # q'" "r = r'" by simp_all
    with Cons.IH[OF g] show ?thesis by simp
  next
    case (Some d)
    obtain p' q' r' where g: "greedy_by gap es (remove1 d pool) = (p', q', r')"
      by (cases "greedy_by gap es (remove1 d pool)")
    with Cons.prems Some
    have e: "p = \<lparr>expected = e, detected = d, diff = gap e d\<rparr> # p'" "q = q'" "r = r'"
      by simp_all
    have "d \<in> set pool" by (rule nearest_by_SomeD(1)[OF Some])
    then have "add_mset d (mset (remove1 d pool)) = mset pool" by simp
    with Cons.IH[OF g] e show ?thesis by (simp add: add_mset_commute)
  qed
qed

lemma greedy_by_pairs:
  "greedy_by gap es pool = (p, q, r) \<Longrightarrow>
   list_all (\<lambda>m. diff m = gap (expected m) (detected m) \<and> diff m \<le> TOLERANCE) p"
proof (induction es arbitrary: pool p q r)
  case Nil
  then show ?case by simp
next
  case (Cons e es)
  show ?case
  proof (cases "nearest_by gap e pool")
    case None
    obtain p' q' r' where g: "greedy_by gap es pool = (p', q', r')" by (cases "greedy_by gap es pool")
    with Cons.prems None have "p = p'" by simp
    with Cons.IH[OF g] show ?thesis by simp
  next
    case (Some d)
    obtain p' q' r' where g: "greedy_by gap es (remove1 d pool) = (p', q', r')"
      by (cases "greedy_by gap es (remove1 d pool)")
    with Cons.prems Some
    have e: "p = \<lparr>expected = e, detected = d, diff = gap e d\<rparr> # p'" by simp
    have "gap e d \<le> TOLERANCE" by (rule nearest_by_SomeD(2)[OF Some])
    with Cons.IH[OF g] e show ?thesis by simp
  qed
qed

lemma greedy_by_rest_subset: "greedy_by gap es pool = (p, q, r) \<Longrightarrow> set r \<subseteq> set pool"
proof -
  assume "greedy_by gap es pool = (p, q, r)"
  from greedy_by_mset[OF this] have "mset (map detected p) + mset r = mset pool" by simp
  then have "set_mset (mset r) \<subseteq> set_mset (mset pool)"
    by (metis mset_subset_eq_add_right set_mset_mono)
  then show ?thesis by simp
qed

lemma greedy_by_unmatched:
  "greedy_by gap es pool = (p, q, r) \<Longrightarrow>
   list_all (\<lambda>e. list_all (\<lambda>d. TOLERANCE < gap e d) r) q"
proof (induction es arbitrary: pool p q r)
  case Nil
  then show ?case by simp
next
  case (Cons e es)
  show ?case
  proof (cases "nearest_by gap e pool")
    case None
    obtain p' q' r' where g: "greedy_by gap es pool = (p', q', r')" by (cases "greedy_by gap es pool")
    with Cons.prems None have e: "q = e # q'" "r = r'" by simp_all
    have "set r' \<subseteq> set pool" by (rule greedy_by_rest_subset[OF g])
    then have "list_all (\<lambda>d. TOLERANCE < gap e d) r'"
      using nearest_by_NoneD[OF None] by (auto simp: list_all_iff)
    with Cons.IH[OF g] e show ?thesis by simp
  next
    case (Some d)
    obtain p' q' r' where g: "greedy_by gap es (remove1 d pool) = (p', q', r')"
      by (cases "greedy_by gap es (remove1 d pool)")
    with Cons.prems Some have e: "q = q'" "r = r'" by simp_all
    with Cons.IH[OF g] show ?thesis by simp
  qed
qed

lemma validate_by_fields:
  obtains p q r where "greedy_by gap (sort (expectedDimensions spec)) (sort det) = (p, q, r)"
    and "validate_by gap det spec =
           \<lparr>status = status_ref q r, matchedRow = Some spec, matches = p, missing = q, extra = r\<rparr>"
proof -
  obtain p q r where g: "greedy_by gap (sort (expectedDimensions spec)) (sort det) = (p, q, r)"
    by (cases "greedy_by gap (sort (expectedDimensions spec)) (sort det)")
  then have "validate_by gap det spec =
           \<lparr>status = status_ref q r, matchedRow = Some spec, matches = p, missing = q, extra = r\<rparr>"
    by (simp add: validate_by_def)
  with g show ?thesis by (rule that)
qed

lemma arg_min_list_cong:
  "xs \<noteq> [] \<Longrightarrow> (\<forall>x\<in>set xs. f x = g x) \<Longrightarrow>
   arg_min_list f xs = arg_min_list (g :: 'a \<Rightarrow> real) xs"
proof (induction xs rule: list_nonempty_induct)
  case (single x)
  show ?case by simp
next
  case (cons x xs)
  then obtain y ys where e: "xs = y # ys" by (cases xs) auto
  from cons have ih: "arg_min_list f xs = arg_min_list g xs" by simp
  have m: "arg_min_list g xs \<in> set xs" by (rule arg_min_list_in[OF cons.hyps])
  from cons.prems m have "f x = g x" "f (arg_min_list g xs) = g (arg_min_list g xs)" by simp_all
  then show ?case using ih unfolding e by (simp add: Let_def)
qed

lemma nearest_by_cong:
  assumes "\<forall>d\<in>set pool. gap1 e d = gap2 e d"
  shows "nearest_by gap1 e pool = nearest_by gap2 e pool"
proof -
  let ?n1 = "filter (\<lambda>d. gap1 e d \<le> 1 / 2) pool"
  let ?n2 = "filter (\<lambda>d. gap2 e d \<le> 1 / 2) pool"
  have n: "?n1 = ?n2" using assms by (intro filter_cong) simp_all
  show ?thesis
  proof (cases "?n2 = []")
    case True
    with n show ?thesis by (simp add: nearest_by_def)
  next
    case False
    have "\<forall>d\<in>set ?n2. gap1 e d = gap2 e d" using assms by simp
    with False have "arg_min_list (gap1 e) ?n2 = arg_min_list (gap2 e) ?n2"
      by (rule arg_min_list_cong)
    with False n show ?thesis by (simp add: nearest_by_def)
  qed
qed

lemma greedy_by_cong:
  "(\<forall>e\<in>set es. \<forall>d\<in>set pool. gap1 e d = gap2 e d) \<Longrightarrow>
   greedy_by gap1 es pool = greedy_by gap2 es pool"
proof (induction es arbitrary: pool)
  case Nil
  show ?case by simp
next
  case (Cons e es)
  have n: "nearest_by gap1 e pool = nearest_by gap2 e pool"
    using Cons.prems by (intro nearest_by_cong) simp
  show ?case
  proof (cases "nearest_by gap2 e pool")
    case None
    have "greedy_by gap1 es pool = greedy_by gap2 es pool"
      using Cons.prems by (intro Cons.IH) simp
    with None n show ?thesis by simp
  next
    case (Some d)
    have d: "d \<in> set pool" by (rule nearest_by_SomeD(1)[OF Some])
    have "\<forall>e\<in>set es. \<forall>x\<in>set (remove1 d pool). gap1 e x = gap2 e x"
      using Cons.prems by (meson list.set_intros(2) notin_set_remove1)
    then have "greedy_by gap1 es (remove1 d pool) = greedy_by gap2 es (remove1 d pool)"
      by (rule Cons.IH)
    moreover have "gap1 e d = gap2 e d" using Cons.prems d by simp
    ultimately show ?thesis using Some n by simp
  qed
qed

lemma validate_exact:
  assumes "\<forall>e\<in>set (expectedDimensions spec). \<forall>d\<in>set det. jsSub e d = e - d"
  shows "validateDimensions det spec = validate_ref det spec"
proof -
  have "\<forall>e\<in>set (sort (expectedDimensions spec)). \<forall>d\<in>set (sort det).
          computedDiff e d = exactDiff e d"
    using assms by (simp add: computedDiff_def exactDiff_def)
  then have "greedy_by computedDiff (sort (expectedDimensions spec)) (sort det) =
             greedy_by exactDiff (sort (expectedDimensions spec)) (sort det)"
    by (rule greedy_by_cong)
  then show ?thesis
    by (simp add: validateDimensions_eq_ref validate_ref_def validate_by_def)
qed

lemma validate_by_single:
  "validate_by gap [d] (spec\<lparr>expectedDimensions := [e]\<rparr>) =
     (if gap e d \<le> 1 / 2
      then \<lparr>status = PERFECT, matchedRow = Some (spec\<lparr>expectedDimensions := [e]\<rparr>),
            matches = [\<lparr>expected = e, detected = d, diff = gap e d\<rparr>], missing = [], extra = []\<rparr>
      else \<lparr>status = MISMATCH, matchedRow = Some (spec\<lparr>expectedDimensions := [e]\<rparr>),
            matches = [], missing = [e], extra = [d]\<rparr>)"
  by (simp add: validate_by_def nearest_by_def status_ref_def)

lemma validateDimensions_single:
  "validateDimensions [d] (spec\<lparr>expectedDimensions := [e]\<rparr>) =
     (if computedDiff e d \<le> 1 / 2
      then \<lparr>status = PERFECT, matchedRow = Some (spec\<lparr>expectedDimensions := [e]\<rparr>),
            matches = [\<lparr>expected = e, detected = d, diff = computedDiff e d\<rparr>],
            missing = [], extra = []\<rparr>
      else \<lparr>status = MISMATCH, matchedRow = Some (spec\<lparr>expectedDimensions := [e]\<rparr>),
            matches = [], missing = [e], extra = [d]\<rparr>)"
  unfolding validateDimensions_eq_ref by (rule validate_by_single)

lemma unitEntry_update: "unitEntry\<lparr>expectedDimensions := [1]\<rparr> = unitEntry"
  by (simp add: unitEntry_def)

lemma computedDiff_belowHalf: "computedDiff 1 belowHalf = 1 / 2"
  by (simp add: computedDiff_def jsSub_belowHalf)

lemma exactDiff_belowHalf: "exactDiff 1 belowHalf = 1 / 2 + 1 / 2 ^ 54"
  by (simp add: exactDiff_def belowHalf_def)

lemma exactDiff_belowHalf_gt: "1 / 2 < exactDiff 1 belowHalf"
  unfolding exactDiff_belowHalf by simp

lemma sample_differences:
  "jsSub 24 (49 / 2) = 24 - 49 / 2" "jsSub 24 12 = 24 - 12"
  "jsSub 12 (49 / 2) = 12 - 49 / 2" "jsSub 12 12 = 12 - 12"
  "jsSub 24 (47 / 2) = 24 - 47 / 2"
  "jsSub 1 (1 / 2) = 1 - 1 / 2" "jsSub 1 (3 / 2) = 1 - 3 / 2"
proof -
  have j: "1 \<le> unitExponent" "Suc 0 \<le> unitExponent" "0 \<le> unitExponent"
    by (simp_all add: unitExponent_def)
  show "jsSub 24 (49 / 2) = 24 - 49 / 2"
    by (rule jsSub_exact[of _ _ "- 1" 1]) (simp_all add: j)
  show "jsSub 24 12 = 24 - 12"
    by (rule jsSub_exact[of _ _ 12 0]) (simp_all add: j)
  show "jsSub 12 (49 / 2) = 12 - 49 / 2"
    by (rule jsSub_exact[of _ _ "- 25" 1]) (simp_all add: j)
  show "jsSub 12 12 = 12 - 12"
    by (rule jsSub_exact[of _ _ 0 0]) (simp_all add: j)
  show "jsSub 24 (47 / 2) = 24 - 47 / 2"
    by (rule jsSub_exact[of _ _ 1 1]) (simp_all add: j)
  show "jsSub 1 (1 / 2) = 1 - 1 / 2"
    by (rule jsSub_exact[of _ _ 1 1]) (simp_all add: j)
  show "jsSub 1 (3 / 2) = 1 - 3 / 2"
    by (rule jsSub_exact[of _ _ "- 1" 1]) (simp_all add: j)
qed

text \<open>
  Claim C1, as the code has it. For every list of detected numbers and every reference
  entry, \<^verbatim>\<open>validateDimensions\<close> equals the reference greedy algorithm taken with the
  absolute difference as the program computes it, from the rounded subtraction: both
  lists are sorted ascending; each expected value in turn is paired with the remaining
  detected value of least computed difference when that difference is at most 0.5, and
  the paired value leaves the pool (so the pairs and the leftovers together are the
  detected list, value for value); otherwise the expected value is unmatched; what is
  left of the pool is the unmatched detected values. Where no subtraction rounds, this is
  the reference with the exact difference. The status is PERFECT, MISSING, EXTRA or
  MISMATCH according to which unmatched lists are empty, and never NO_MATCH.
\<close>

theorem validateDimensions_greedy:
  "validateDimensions det spec = validate_by computedDiff det spec \<and>
   ((\<forall>e\<in>set (expectedDimensions spec). \<forall>d\<in>set det. jsSub e d = e - d) \<longrightarrow>
      validateDimensions det spec = validate_ref det spec) \<and>
   (status (validateDimensions det spec) = PERFECT) =
     (missing (validateDimensions det spec) = [] \<and> extra (validateDimensions det spec) = []) \<and>
   (status (validateDimensions det spec) = MISSING) =
     (missing (validateDimensions det spec) \<noteq> [] \<and> extra (validateDimensions det spec) = []) \<and>
   (status (validateDimensions det spec) = EXTRA) =
     (missing (validateDimensions det spec) = [] \<and> extra (validateDimensions det spec) \<noteq> []) \<and>
   (status (validateDimensions det spec) = MISMATCH) =
     (missing (validateDimensions det spec) \<noteq> [] \<and> extra (validateDimensions det spec) \<noteq> []) \<and>
   status (validateDimensions det spec) \<noteq> NO_MATCH \<and>
   mset (map detected (matches (validateDimensions det spec)))
     + mset (extra (validateDimensions det spec)) = mset det \<and>
   mset (map expected (matches (validateDimensions det spec)))
     + mset (missing (validateDimensions det spec)) = mset (expectedDimensions spec)"
proof -
  obtain p q r where
    g: "greedy_by computedDiff (sort (expectedDimensions spec)) (sort det) = (p, q, r)"
    and v: "validate_by computedDiff det spec =
           \<lparr>status = status_ref q r, matchedRow = Some spec, matches = p, missing = q, extra = r\<rparr>"
    by (rule validate_by_fields)
  have eq: "validateDimensions det spec = validate_by computedDiff det spec"
    by (rule validateDimensions_eq_ref)
  have ex: "(\<forall>e\<in>set (expectedDimensions spec). \<forall>d\<in>set det. jsSub e d = e - d) \<longrightarrow>
      validateDimensions det spec = validate_ref det spec"
    using validate_exact by blast
  have st: "(status_ref q r = PERFECT) = (q = [] \<and> r = [])"
    "(status_ref q r = MISSING) = (q \<noteq> [] \<and> r = [])"
    "(status_ref q r = EXTRA) = (q = [] \<and> r \<noteq> [])"
    "(status_ref q r = MISMATCH) = (q \<noteq> [] \<and> r \<noteq> [])"
    "status_ref q r \<noteq> NO_MATCH"
    by (auto simp: status_ref_def)
  from greedy_by_mset[OF g]
  have ms: "mset (map detected p) + mset r = mset det"
    "mset (map expected p) + mset q = mset (expectedDimensions spec)"
    by simp_all
  have rest: "(status (validateDimensions det spec) = PERFECT) =
     (missing (validateDimensions det spec) = [] \<and> extra (validateDimensions det spec) = []) \<and>
   (status (validateDimensions det spec) = MISSING) =
     (missing (validateDimensions det spec) \<noteq> [] \<and> extra (validateDimensions det spec) = []) \<and>
   (status (validateDimensions det spec) = EXTRA) =
     (missing (validateDimensions det spec) = [] \<and> extra (validateDimensions det spec) \<noteq> []) \<and>
   (status (validateDimensions det spec) = MISMATCH) =
     (missing (validateDimensions det spec) \<noteq> [] \<and> extra (validateDimensions det spec) \<noteq> []) \<and>
   status (validateDimensions det spec) \<noteq> NO_MATCH \<and>
   mset (map detected (matches (validateDimensions det spec)))
     + mset (extra (validateDimensions det spec)) = mset det \<and>
   mset (map expected (matches (validateDimensions det spec)))
     + mset (missing (validateDimensions det spec)) = mset (expectedDimensions spec)"
    unfolding eq v using st ms by simp
  from eq ex rest show ?thesis by blast
qed

theorem validateDimensions_greedy_witness:
  "validateDimensions [49 / 2, 12] sideTable = validate_by computedDiff [49 / 2, 12] sideTable \<and>
   validateDimensions [49 / 2, 12] sideTable = validate_ref [49 / 2, 12] sideTable \<and>
   status (validateDimensions [49 / 2, 12] sideTable) \<noteq> NO_MATCH"
proof -
  have e: "expectedDimensions sideTable = [24, 12]" by (simp add: sideTable_def)
  have h: "\<forall>e\<in>set (expectedDimensions sideTable). \<forall>d\<in>set [49 / 2, 12 :: real]. jsSub e d = e - d"
    unfolding e using sample_differences(1-4) by simp
  from validateDimensions_greedy[of "[49 / 2, 12]" sideTable] h
  show ?thesis by blast
qed

text \<open>
  The claim as the specification states it, with the exact difference, fails: against
  the expected value 1 the detected value 0.49999999999999994 is at the exact distance
  \<open>1/2 + 2 ^ - 54\<close>, beyond the tolerance, so the reference leaves both unmatched; the
  program computes the distance 0.5 and pairs them.
\<close>

theorem validateDimensions_not_exact:
  "belowHalf = 1 / 2 - 1 / 2 ^ 54 \<and>
   exactDiff 1 belowHalf = 1 / 2 + 1 / 2 ^ 54 \<and>
   matches (validate_ref [belowHalf] unitEntry) = [] \<and>
   matches (validateDimensions [belowHalf] unitEntry) =
     [\<lparr>expected = 1, detected = belowHalf, diff = 1 / 2\<rparr>] \<and>
   validateDimensions [belowHalf] unitEntry \<noteq> validate_ref [belowHalf] unitEntry"
proof -
  have a: "matches (validate_ref [belowHalf] unitEntry) = []"
    using validate_by_single[where gap = exactDiff and d = belowHalf and spec = unitEntry and e = 1] exactDiff_belowHalf_gt
    unfolding unitEntry_update validate_ref_def by simp
  have b: "matches (validateDimensions [belowHalf] unitEntry) =
     [\<lparr>expected = 1, detected = belowHalf, diff = 1 / 2\<rparr>]"
    using validateDimensions_single[where d = belowHalf and spec = unitEntry and e = 1]
    unfolding unitEntry_update computedDiff_belowHalf by simp
  from a b have "validateDimensions [belowHalf] unitEntry \<noteq> validate_ref [belowHalf] unitEntry"
    by auto
  with a b exactDiff_belowHalf show ?thesis by (simp add: belowHalf_def)
qed

text \<open>
  Claim C3, as the code has it. A detected value pairs with an expected value exactly
  when their absolute difference as the program computes it is at most 0.5. With one
  value on each side the pair is made if and only if the computed difference is at most
  0.5; an exact difference of at most 0.5 always pairs (so 24.5 against 24 matches), an
  exact difference of \<open>0.5 + 2 ^ - 53\<close> or more never does (so 24.50001 against 24 does
  not). In general every pair made has a computed difference of at most 0.5, and an
  expected value is left unmatched only when every detected value left over is farther
  than 0.5 from it.
\<close>

theorem tolerance_boundary:
  "matches (validateDimensions [d] (spec\<lparr>expectedDimensions := [e]\<rparr>)) =
     (if computedDiff e d \<le> 0.5
      then [\<lparr>expected = e, detected = d, diff = computedDiff e d\<rparr>] else []) \<and>
   status (validateDimensions [d] (spec\<lparr>expectedDimensions := [e]\<rparr>)) =
     (if computedDiff e d \<le> 0.5 then PERFECT else MISMATCH) \<and>
   (\<bar>e - d\<bar> \<le> 0.5 \<longrightarrow> computedDiff e d \<le> 0.5) \<and>
   (0.5 + 1 / 2 ^ 53 \<le> \<bar>e - d\<bar> \<longrightarrow> 0.5 < computedDiff e d) \<and>
   status (validateDimensions [24.5] (spec\<lparr>expectedDimensions := [24]\<rparr>)) = PERFECT \<and>
   status (validateDimensions [24.50001] (spec\<lparr>expectedDimensions := [24]\<rparr>)) = MISMATCH \<and>
   list_all (\<lambda>m. diff m = computedDiff (expected m) (detected m) \<and> diff m \<le> 0.5)
     (matches (validateDimensions det spec)) \<and>
   list_all (\<lambda>x. list_all (\<lambda>y. 0.5 < computedDiff x y) (extra (validateDimensions det spec)))
     (missing (validateDimensions det spec))"
proof -
  have within: "\<And>e d :: real. \<bar>e - d\<bar> \<le> 0.5 \<Longrightarrow> computedDiff e d \<le> 0.5"
    using jsSub_within by (simp add: computedDiff_def)
  have beyond: "\<And>e d :: real. 0.5 + 1 / 2 ^ 53 \<le> \<bar>e - d\<bar> \<Longrightarrow> 0.5 < computedDiff e d"
    using jsSub_beyond by (simp add: computedDiff_def)
  obtain p q r where
    g: "greedy_by computedDiff (sort (expectedDimensions spec)) (sort det) = (p, q, r)"
    and v: "validate_by computedDiff det spec =
           \<lparr>status = status_ref q r, matchedRow = Some spec, matches = p, missing = q, extra = r\<rparr>"
    by (rule validate_by_fields)
  have half: "TOLERANCE = 0.5" by (simp add: TOLERANCE_def)
  have a: "list_all (\<lambda>m. diff m = computedDiff (expected m) (detected m) \<and> diff m \<le> 0.5)
             (matches (validateDimensions det spec))"
    using greedy_by_pairs[OF g] unfolding validateDimensions_eq_ref v half by simp
  have b: "list_all (\<lambda>x. list_all (\<lambda>y. 0.5 < computedDiff x y) (extra (validateDimensions det spec)))
             (missing (validateDimensions det spec))"
    using greedy_by_unmatched[OF g] unfolding validateDimensions_eq_ref v half by simp
  have "computedDiff 24 24.5 \<le> 0.5" by (rule within) simp
  then have c: "status (validateDimensions [24.5] (spec\<lparr>expectedDimensions := [24]\<rparr>)) = PERFECT"
    unfolding validateDimensions_single by simp
  have "0.5 < computedDiff 24 24.50001" by (rule beyond) simp
  then have d: "status (validateDimensions [24.50001] (spec\<lparr>expectedDimensions := [24]\<rparr>)) = MISMATCH"
    unfolding validateDimensions_single by simp
  have s: "matches (validateDimensions [d] (spec\<lparr>expectedDimensions := [e]\<rparr>)) =
     (if computedDiff e d \<le> 0.5
      then [\<lparr>expected = e, detected = d, diff = computedDiff e d\<rparr>] else []) \<and>
   status (validateDimensions [d] (spec\<lparr>expectedDimensions := [e]\<rparr>)) =
     (if computedDiff e d \<le> 0.5 then PERFECT else MISMATCH)"
    unfolding validateDimensions_single by simp
  from s within[of e d] beyond[of e d] a b c d show ?thesis by blast
qed

theorem tolerance_boundary_witness:
  "\<bar>24 - 49 / 2 :: real\<bar> \<le> 0.5 \<and> computedDiff 24 (49 / 2) \<le> 0.5 \<and>
   status (validateDimensions [49 / 2] (sideTable\<lparr>expectedDimensions := [24]\<rparr>)) = PERFECT \<and>
   0.5 + 1 / 2 ^ 53 \<le> \<bar>24 - 2450001 / 100000 :: real\<bar> \<and>
   0.5 < computedDiff 24 (2450001 / 100000) \<and>
   status (validateDimensions [2450001 / 100000] (sideTable\<lparr>expectedDimensions := [24]\<rparr>)) = MISMATCH"
proof -
  have h1: "\<bar>24 - 49 / 2 :: real\<bar> \<le> 0.5" by simp
  have h2: "0.5 + 1 / 2 ^ 53 \<le> \<bar>24 - 2450001 / 100000 :: real\<bar>" by simp
  note t1 = tolerance_boundary[where d = "49 / 2" and spec = sideTable and e = 24 and det = "[]"]
  note t2 = tolerance_boundary[where d = "2450001 / 100000" and spec = sideTable and e = 24 and det = "[]"]
  from t1 h1 have c1: "computedDiff 24 (49 / 2) \<le> 0.5" by blast
  from t2 h2 have c2: "0.5 < computedDiff 24 (2450001 / 100000)" by blast
  from t1 c1 have s1:
    "status (validateDimensions [49 / 2] (sideTable\<lparr>expectedDimensions := [24]\<rparr>)) = PERFECT"
    by simp
  from t2 c2 have s2:
    "status (validateDimensions [2450001 / 100000] (sideTable\<lparr>expectedDimensions := [24]\<rparr>)) = MISMATCH"
    by simp
  from h1 h2 c1 c2 s1 s2 show ?thesis by blast
qed

text \<open>
  The claim as the specification states it, with the exact difference, fails at the
  boundary itself: 0.49999999999999994 is farther than 0.5 from 1, and is paired with it.
\<close>

theorem tolerance_boundary_rounds:
  "belowHalf = 1 / 2 - 1 / 2 ^ 54 \<and>
   1 / 2 < \<bar>1 - belowHalf\<bar> \<and>
   computedDiff 1 belowHalf = 1 / 2 \<and>
   matches (validateDimensions [belowHalf] unitEntry) =
     [\<lparr>expected = 1, detected = belowHalf, diff = 1 / 2\<rparr>] \<and>
   status (validateDimensions [belowHalf] unitEntry) = PERFECT"
proof -
  have b: "validateDimensions [belowHalf] unitEntry =
     \<lparr>status = PERFECT, matchedRow = Some unitEntry,
      matches = [\<lparr>expected = 1, detected = belowHalf, diff = 1 / 2\<rparr>], missing = [], extra = []\<rparr>"
    using validateDimensions_single[where d = belowHalf and spec = unitEntry and e = 1]
    unfolding unitEntry_update computedDiff_belowHalf by simp
  have "1 / 2 < \<bar>1 - belowHalf\<bar>" using exactDiff_belowHalf_gt by (simp add: exactDiff_def)
  with b computedDiff_belowHalf show ?thesis by (simp add: belowHalf_def)
qed

lemma equidistant_left:
  assumes "(a::real) < b" and "\<bar>e - a\<bar> = \<bar>e - b\<bar>" and "\<bar>e - x\<bar> = \<bar>e - a\<bar>" and "x \<le> a"
  shows "x = a"
  using assms by (auto simp: abs_if split: if_splits)

text \<open>
  Claim C10, as the code has it. When two values of the sorted pool are at the same,
  least computed distance from the current expected value and within the tolerance, the
  later one is not the one paired: the value paired and removed is the first pool value
  at that least computed distance, which is the earlier of the two or a smaller value
  before it whose computed distance is the same, and the later one stays in the pool.
  Where no subtraction rounds, the value paired is the earlier (smaller) of the two.
\<close>

theorem tie_takes_earlier:
  assumes "sorted pool" and "i < j" and "j < length pool" and "pool ! i < pool ! j"
    and "computedDiff e (pool ! i) = computedDiff e (pool ! j)"
    and "computedDiff e (pool ! i) \<le> TOLERANCE"
    and "\<forall>k<length pool. computedDiff e (pool ! i) \<le> computedDiff e (pool ! k)"
  shows "\<exists>b\<le>i. computedDiff e (pool ! b) = computedDiff e (pool ! i) \<and>
           (\<forall>k<b. computedDiff e (pool ! i) < computedDiff e (pool ! k)) \<and>
           pool ! b \<le> pool ! i \<and>
           ((\<forall>k<length pool. jsSub e (pool ! k) = e - pool ! k) \<longrightarrow> pool ! b = pool ! i) \<and>
           scanPool e pool 0 (- 1, MAX_VALUE) = (int b, computedDiff e (pool ! i)) \<and>
           matchLoop (e # rest) (ms, mis, pool) =
             matchLoop rest
               (ms @ [\<lparr>expected = e, detected = pool ! b, diff = computedDiff e (pool ! i)\<rparr>], mis,
                splice1 pool b) \<and>
           pool ! j \<in> set (splice1 pool b)"
proof -
  have il: "i < length pool" using assms(2,3) by simp
  then have "\<exists>x\<in>set pool. computedDiff e x \<le> TOLERANCE" using assms(6) by (meson nth_mem)
  from first_min_split[OF this, of "computedDiff e"]
  obtain us d vs where s: "pool = us @ d # vs" "computedDiff e d \<le> TOLERANCE"
    "\<forall>u\<in>set us. computedDiff e u \<le> TOLERANCE \<longrightarrow> computedDiff e d < computedDiff e u"
    "\<forall>v\<in>set vs. computedDiff e v \<le> TOLERANCE \<longrightarrow> computedDiff e d \<le> computedDiff e v"
    by blast
  have bl: "length us < length pool" and pb: "pool ! length us = d" by (simp_all add: s(1))
  have le1: "computedDiff e (pool ! i) \<le> computedDiff e d" using assms(7) bl pb by blast
  have notin: "\<not> i < length us"
  proof
    assume "i < length us"
    then have "pool ! i \<in> set us" by (simp add: s(1) nth_append)
    with s(3) assms(6) have "computedDiff e d < computedDiff e (pool ! i)" by blast
    with le1 show False by simp
  qed
  then have bi: "length us \<le> i" by simp
  have "pool ! i \<in> set pool" using il by simp
  then have "computedDiff e d \<le> computedDiff e (pool ! i)"
    using s(3,4) assms(6) unfolding s(1) by (auto simp: less_imp_le)
  with le1 have eq: "computedDiff e d = computedDiff e (pool ! i)" by simp
  have "pool ! length us \<le> pool ! i"
    using assms(1) bi il by (rule sorted_nth_mono)
  then have dle: "d \<le> pool ! i" by (simp add: pb)
  have before: "\<forall>k<length us. computedDiff e (pool ! i) < computedDiff e (pool ! k)"
  proof (intro allI impI)
    fix k assume k: "k < length us"
    then have m: "pool ! k \<in> set us" by (simp add: s(1) nth_append)
    show "computedDiff e (pool ! i) < computedDiff e (pool ! k)"
    proof (cases "computedDiff e (pool ! k) \<le> TOLERANCE")
      case True
      with s(3) m eq show ?thesis by auto
    next
      case False
      with assms(6) show ?thesis by simp
    qed
  qed
  have exact: "(\<forall>k<length pool. jsSub e (pool ! k) = e - pool ! k) \<longrightarrow> d = pool ! i"
  proof
    assume x: "\<forall>k<length pool. jsSub e (pool ! k) = e - pool ! k"
    from x il have xi: "computedDiff e (pool ! i) = \<bar>e - pool ! i\<bar>" by (simp add: computedDiff_def)
    from x assms(3) have xj: "computedDiff e (pool ! j) = \<bar>e - pool ! j\<bar>"
      by (simp add: computedDiff_def)
    from x bl have "computedDiff e (pool ! length us) = \<bar>e - pool ! length us\<bar>"
      by (simp add: computedDiff_def)
    then have xd: "computedDiff e d = \<bar>e - d\<bar>" by (simp only: pb)
    from assms(5) xi xj have a: "\<bar>e - pool ! i\<bar> = \<bar>e - pool ! j\<bar>" by simp
    from eq xd xi have b: "\<bar>e - d\<bar> = \<bar>e - pool ! i\<bar>" by simp
    from equidistant_left[OF assms(4) a b dle] show "d = pool ! i" .
  qed
  have sp: "scanPool e pool 0 (- 1, MAX_VALUE) = (int (length us), computedDiff e d)"
    unfolding s(1) by (rule scanPool_Some[OF s(2,3,4)])
  have nb: "d \<notin> set us" by (rule first_min_not_before[OF s(2,3)])
  have sl: "splice1 pool (length us) = us @ vs" unfolding s(1) by (rule splice1_middle)
  have "matchLoop (e # rest) (ms, mis, pool) =
           matchLoop rest
             (ms @ [\<lparr>expected = e, detected = d, diff = computedDiff e d\<rparr>], mis, remove1 d pool)"
    unfolding s(1) by (rule matchLoop_step_Some[OF s(2,3,4)])
  moreover have "remove1 d pool = us @ vs" unfolding s(1) by (rule remove1_middle[OF nb])
  ultimately have step: "matchLoop (e # rest) (ms, mis, pool) =
           matchLoop rest
             (ms @ [\<lparr>expected = e, detected = d, diff = computedDiff e d\<rparr>], mis,
              splice1 pool (length us))"
    by (simp only: sl)
  have jl: "length us < j" using bi assms(2) by simp
  with assms(3) have "j - Suc (length us) < length vs" by (auto simp: s(1))
  moreover have "pool ! j = vs ! (j - Suc (length us))"
    using jl by (simp add: s(1) nth_append nth_Cons')
  ultimately have "pool ! j \<in> set vs" by simp
  then have rem: "pool ! j \<in> set (splice1 pool (length us))" by (simp add: sl)
  have "length us \<le> i \<and> computedDiff e (pool ! length us) = computedDiff e (pool ! i) \<and>
           (\<forall>k<length us. computedDiff e (pool ! i) < computedDiff e (pool ! k)) \<and>
           pool ! length us \<le> pool ! i \<and>
           ((\<forall>k<length pool. jsSub e (pool ! k) = e - pool ! k) \<longrightarrow> pool ! length us = pool ! i) \<and>
           scanPool e pool 0 (- 1, MAX_VALUE) = (int (length us), computedDiff e (pool ! i)) \<and>
           matchLoop (e # rest) (ms, mis, pool) =
             matchLoop rest
               (ms @ [\<lparr>expected = e, detected = pool ! length us,
                       diff = computedDiff e (pool ! i)\<rparr>], mis,
                splice1 pool (length us)) \<and>
           pool ! j \<in> set (splice1 pool (length us))"
    using bi eq before dle exact sp step rem unfolding pb by simp
  then show ?thesis by blast
qed

theorem tie_takes_earlier_witness:
  "sorted [47 / 2, 49 / 2 :: real] \<and>
   computedDiff 24 (47 / 2) = computedDiff 24 (49 / 2) \<and>
   matchLoop [24] ([], [], [47 / 2, 49 / 2]) =
     ([\<lparr>expected = 24, detected = 47 / 2, diff = 1 / 2\<rparr>], [], [49 / 2])"
proof -
  let ?pool = "[47 / 2, 49 / 2 :: real]"
  have c0: "computedDiff 24 (47 / 2) = 1 / 2" and c1: "computedDiff 24 (49 / 2) = 1 / 2"
    by (simp_all add: computedDiff_def sample_differences)
  have h1: "sorted ?pool" by simp
  have h2: "(0::nat) < 1" by simp
  have h3: "1 < length ?pool" by simp
  have h4: "?pool ! 0 < ?pool ! 1" by simp
  have h5: "computedDiff 24 (?pool ! 0) = computedDiff 24 (?pool ! 1)" by (simp add: c0 c1)
  have h6: "computedDiff 24 (?pool ! 0) \<le> TOLERANCE" by (simp add: c0 TOLERANCE_def)
  have h7: "\<forall>k<length ?pool. computedDiff 24 (?pool ! 0) \<le> computedDiff 24 (?pool ! k)"
    by (simp add: less_Suc_eq nth_Cons' c0 c1)
  from tie_takes_earlier[OF h1 h2 h3 h4 h5 h6 h7, of "[]" "[]" "[]"]
  obtain b where b: "b \<le> 0"
    and m: "matchLoop [24] ([], [], ?pool) =
             matchLoop []
               ([] @ [\<lparr>expected = 24, detected = ?pool ! b, diff = computedDiff 24 (?pool ! 0)\<rparr>], [],
                splice1 ?pool b)"
    by blast
  from b have b0: "b = 0" by simp
  have "matchLoop [24] ([], [], ?pool) =
     ([\<lparr>expected = 24, detected = 47 / 2, diff = 1 / 2\<rparr>], [], [49 / 2])"
    unfolding m b0 by (simp add: c0 splice1_def)
  with h1 c0 c1 show ?thesis by (simp del: matchLoop.simps)
qed

text \<open>
  The claim as the specification states it, with the exact difference, fails: in the
  sorted pool 0.49999999999999994, 0.5, 1.5 the values 0.5 and 1.5 are both at the least
  exact distance 0.5 from the expected value 1, within the tolerance, and the first value
  is strictly farther; the program pairs and removes the first value, and both tied
  values stay in the pool.
\<close>

theorem tie_not_earlier:
  "belowHalf = 1 / 2 - 1 / 2 ^ 54 \<and>
   sorted [belowHalf, 1 / 2, 3 / 2] \<and>
   \<bar>1 - 1 / 2 :: real\<bar> = \<bar>1 - 3 / 2\<bar> \<and>
   \<bar>1 - 1 / 2 :: real\<bar> \<le> TOLERANCE \<and>
   \<bar>1 - 1 / 2 :: real\<bar> < \<bar>1 - belowHalf\<bar> \<and>
   scanPool 1 [belowHalf, 1 / 2, 3 / 2] 0 (- 1, MAX_VALUE) = (0, 1 / 2) \<and>
   matchLoop [1] ([], [], [belowHalf, 1 / 2, 3 / 2]) =
     ([\<lparr>expected = 1, detected = belowHalf, diff = 1 / 2\<rparr>], [], [1 / 2, 3 / 2])"
proof -
  have c: "computedDiff 1 (1 / 2) = 1 / 2" "computedDiff 1 (3 / 2) = 1 / 2"
    by (simp_all add: computedDiff_def sample_differences)
  have t: "computedDiff 1 belowHalf \<le> TOLERANCE"
    by (simp add: computedDiff_belowHalf TOLERANCE_def)
  have u: "\<forall>u\<in>set []. computedDiff 1 u \<le> TOLERANCE \<longrightarrow>
             computedDiff 1 belowHalf < computedDiff 1 u"
    by simp
  have v: "\<forall>v\<in>set [1 / 2, 3 / 2]. computedDiff 1 v \<le> TOLERANCE \<longrightarrow>
             computedDiff 1 belowHalf \<le> computedDiff 1 v"
    by (simp add: c computedDiff_belowHalf)
  from scanPool_Some[OF t u v]
  have sp: "scanPool 1 [belowHalf, 1 / 2, 3 / 2] 0 (- 1, MAX_VALUE) = (0, 1 / 2)"
    by (simp add: computedDiff_belowHalf)
  from matchLoop_step_Some[OF t u v, of "[]" "[]" "[]"]
  have m: "matchLoop [1] ([], [], [belowHalf, 1 / 2, 3 / 2]) =
     ([\<lparr>expected = 1, detected = belowHalf, diff = 1 / 2\<rparr>], [], [1 / 2, 3 / 2])"
    by (simp add: computedDiff_belowHalf)
  have s: "sorted [belowHalf, 1 / 2, 3 / 2]" by (simp add: belowHalf_def)
  have d: "\<bar>1 - 1 / 2 :: real\<bar> < \<bar>1 - belowHalf\<bar>" by (simp add: belowHalf_def)
  from s d sp m show ?thesis by (simp add: belowHalf_def TOLERANCE_def del: matchLoop.simps scanPool.simps)
qed

section \<open>The matcher returns all candidates, ranked\<close>

lemma includesStr_iff: "includesStr s p \<longleftrightarrow> (\<exists>u v. s = u @ p @ v)"
proof (induction s)
  case Nil
  show ?case by auto
next
  case (Cons c cs)
  show ?case
  proof
    assume "includesStr (c # cs) p"
    then consider "prefix p (c # cs)" | "includesStr cs p" by auto
    then show "\<exists>u v. c # cs = u @ p @ v"
    proof cases
      case 1
      then obtain v where "c # cs = p @ v" by (auto simp: prefix_def)
      then have "c # cs = [] @ p @ v" by simp
      then show ?thesis by blast
    next
      case 2
      with Cons.IH obtain u v where "cs = u @ p @ v" by blast
      then have "c # cs = (c # u) @ p @ v" by simp
      then show ?thesis by blast
    qed
  next
    assume "\<exists>u v. c # cs = u @ p @ v"
    then obtain u v where e: "c # cs = u @ p @ v" by blast
    show "includesStr (c # cs) p"
    proof (cases u)
      case Nil
      with e have "prefix p (c # cs)" by (simp add: prefix_def)
      then show ?thesis by simp
    next
      case (Cons a u')
      with e have "cs = u' @ p @ v" by simp
      with Cons.IH have "includesStr cs p" by blast
      then show ?thesis by simp
    qed
  qed
qed

lemma collectCandidates_filter:
  "collectCandidates fs specs acc =
     acc @ filter (\<lambda>s. productSlug s \<noteq> [] \<and> includesStr fs (productSlug s)) specs"
  by (induction specs arbitrary: acc) simp_all







lemma findAllMatchingSpecs_alt:
  "findAllMatchingSpecs lc name specs =
     sortBy (compareSpecs lc)
       (filter (\<lambda>s. productSlug s \<noteq> [] \<and> includesStr (toSlug (stripExtension name)) (productSlug s))
          specs)"
proof (cases "toSlug (stripExtension name) = []")
  case True
  then have "filter (\<lambda>s. productSlug s \<noteq> [] \<and> includesStr (toSlug (stripExtension name)) (productSlug s)) specs = []"
    by (simp add: filter_empty_conv)
  with True show ?thesis by (simp add: findAllMatchingSpecs_def sortBy_def)
next
  case False
  then show ?thesis
    by (simp add: findAllMatchingSpecs_def Let_def collectCandidates_filter sortBy_def)
qed






lemma validateDimensions_status: "status (validateDimensions det spec) \<noteq> NO_MATCH"
  by (simp add: validateDimensions_def classify_def split: prod.split)

lemma findAllMatchingSpecs_empty:
  assumes "toSlug (stripExtension name) = [] \<or>
           (\<forall>entry\<in>set specs. \<not> (\<exists>u v. toSlug (stripExtension name) = u @ productSlug entry @ v))"
  shows "findAllMatchingSpecs lc name specs = []"
proof -
  have "filter (\<lambda>s. productSlug s \<noteq> [] \<and> includesStr (toSlug (stripExtension name)) (productSlug s))
          specs = []"
    using assms by (auto simp: filter_empty_conv includesStr_iff)
  then show ?thesis by (simp add: findAllMatchingSpecs_alt sortBy_def)
qed

lemma findMatchingSpec_None:
  "(findMatchingSpec lc name specs = None) = (findAllMatchingSpecs lc name specs = [])"
  by (simp add: findMatchingSpec_def Let_def)

lemma handleAnalysis_NO_MATCH:
  assumes "validation (handleAnalysis analyzeContent lc specs input) = Some v"
    and "status v = NO_MATCH"
  shows "\<exists>nm. fileName input = Some nm \<and> findAllMatchingSpecs lc nm specs = []"
proof (cases "analyzeContent input")
  case (Inl err)
  with assms(1) show ?thesis by (cases err) (simp add: handleAnalysis_def)
next
  case (Inr g)
  show ?thesis
  proof (cases "fileName input")
    case None
    with Inr assms(1) show ?thesis by (simp add: handleAnalysis_def)
  next
    case (Some nm)
    show ?thesis
    proof (cases "findMatchingSpec lc nm specs")
      case None
      then have "findAllMatchingSpecs lc nm specs = []" by (simp add: findMatchingSpec_None)
      with Some show ?thesis by simp
    next
      case (Some m)
      with Inr \<open>fileName input = Some nm\<close> assms(1)
      have "v = validateDimensions (dimensions g) m"
        by (simp add: handleAnalysis_def split: if_splits)
      with assms(2) validateDimensions_status show ?thesis by simp
    qed
  qed
qed

lemma handleAnalysis_empty:
  assumes "analyzeContent input = Inr g" and "fileName input = Some nm" and "nm \<noteq> []"
    and "specs \<noteq> []" and "findAllMatchingSpecs lc nm specs = []"
  shows "validation (handleAnalysis analyzeContent lc specs input) =
           Some \<lparr>status = NO_MATCH, matchedRow = None, matches = [], missing = [], extra = []\<rparr>"
  using assms by (simp add: handleAnalysis_def findMatchingSpec_def)

text \<open>
  Claim C5. When the slug of the file name is empty, or no entry's slug occurs in it, the
  matcher returns the empty list (it has no error result at all). The status NO_MATCH is
  the caller's: \<^verbatim>\<open>handleAnalysis\<close> sets it exactly when the matcher found nothing (the
  extraction having answered, on a non-empty table and file name), and
  \<^verbatim>\<open>validateDimensions\<close> never returns it.
\<close>

theorem no_match_is_the_callers:
  "((toSlug (stripExtension name) = [] \<or>
     (\<forall>entry\<in>set specs. \<not> (\<exists>u v. toSlug (stripExtension name) = u @ productSlug entry @ v)))
      \<longrightarrow> findAllMatchingSpecs lc name specs = [] \<and> findMatchingSpec lc name specs = None) \<and>
   (\<forall>v. validation (handleAnalysis analyzeContent lc specs input) = Some v \<and> status v = NO_MATCH
      \<longrightarrow> (\<exists>nm. fileName input = Some nm \<and> findAllMatchingSpecs lc nm specs = [])) \<and>
   (\<forall>g nm. analyzeContent input = Inr g \<and> fileName input = Some nm \<and> nm \<noteq> [] \<and> specs \<noteq> [] \<and>
        findAllMatchingSpecs lc nm specs = []
      \<longrightarrow> validation (handleAnalysis analyzeContent lc specs input) =
            Some \<lparr>status = NO_MATCH, matchedRow = None, matches = [], missing = [], extra = []\<rparr>) \<and>
   status (validateDimensions det spec) \<noteq> NO_MATCH"
proof -
  have a: "(toSlug (stripExtension name) = [] \<or>
     (\<forall>entry\<in>set specs. \<not> (\<exists>u v. toSlug (stripExtension name) = u @ productSlug entry @ v)))
      \<longrightarrow> findAllMatchingSpecs lc name specs = [] \<and> findMatchingSpec lc name specs = None"
    using findAllMatchingSpecs_empty[of name specs lc] by (simp add: findMatchingSpec_None)
  have b: "\<forall>v. validation (handleAnalysis analyzeContent lc specs input) = Some v \<and> status v = NO_MATCH
      \<longrightarrow> (\<exists>nm. fileName input = Some nm \<and> findAllMatchingSpecs lc nm specs = [])"
    using handleAnalysis_NO_MATCH by blast
  have c: "\<forall>g nm. analyzeContent input = Inr g \<and> fileName input = Some nm \<and> nm \<noteq> [] \<and> specs \<noteq> [] \<and>
        findAllMatchingSpecs lc nm specs = []
      \<longrightarrow> validation (handleAnalysis analyzeContent lc specs input) =
            Some \<lparr>status = NO_MATCH, matchedRow = None, matches = [], missing = [], extra = []\<rparr>"
    using handleAnalysis_empty by blast
  from a b c validateDimensions_status show ?thesis by blast
qed

theorem no_match_is_the_callers_witness:
  "findAllMatchingSpecs codeUnitCompare ''lamp.png'' [sideTable, roundSideTable] = [] \<and>
   findMatchingSpec codeUnitCompare ''lamp.png'' [sideTable, roundSideTable] = None \<and>
   validation (handleAnalysis (\<lambda>i. Inr lampResponse) codeUnitCompare [sideTable, roundSideTable]
       lampInput) =
     Some \<lparr>status = NO_MATCH, matchedRow = None, matches = [], missing = [], extra = []\<rparr> \<and>
   status (validateDimensions [24, 12] sideTable) \<noteq> NO_MATCH"
proof -
  have s: "toSlug (stripExtension ''lamp.png'') = ''lamp''" by code_simp
  have n1: "\<not> includesStr ''lamp'' (productSlug sideTable)" by code_simp
  have n2: "\<not> includesStr ''lamp'' (productSlug roundSideTable)" by code_simp
  have h: "toSlug (stripExtension ''lamp.png'') = [] \<or>
     (\<forall>entry\<in>set [sideTable, roundSideTable].
        \<not> (\<exists>u v. toSlug (stripExtension ''lamp.png'') = u @ productSlug entry @ v))"
    using n1 n2 unfolding s includesStr_iff by simp
  note t = no_match_is_the_callers[of "''lamp.png''" "[sideTable, roundSideTable]" codeUnitCompare
      "\<lambda>i. Inr lampResponse" lampInput "[24, 12]" sideTable]
  from t h have e: "findAllMatchingSpecs codeUnitCompare ''lamp.png'' [sideTable, roundSideTable] = []"
    "findMatchingSpec codeUnitCompare ''lamp.png'' [sideTable, roundSideTable] = None"
    by blast+
  have f: "fileName lampInput = Some ''lamp.png''" by (simp add: lampInput_def)
  from t e(1) f have v: "validation (handleAnalysis (\<lambda>i. Inr lampResponse) codeUnitCompare
       [sideTable, roundSideTable] lampInput) =
     Some \<lparr>status = NO_MATCH, matchedRow = None, matches = [], missing = [], extra = []\<rparr>"
    by simp
  from t have p: "status (validateDimensions [24, 12] sideTable) \<noteq> NO_MATCH" by blast
  from e v p show ?thesis by simp
qed

section \<open>The batch driver skips unmatched items before extraction\<close>

lemma batchStep_cases:
  fixes run :: BatchRun and i :: nat
  defines "its \<equiv> localItems run"
  defines "it \<equiv> localItems run ! i"
  shows "(itemStatus it = COMPLETED \<or> itemStatus it = SKIPPED) \<and> batchStep rf ac i run = run
       \<or> itemStatus it \<noteq> COMPLETED \<and> itemStatus it \<noteq> SKIPPED \<and> matchedSpecs it = [] \<and>
         (\<exists>it2. itemStatus it2 = SKIPPED \<and> matchedSpecs it2 = matchedSpecs it \<and>
            batchStep rf ac i run =
              run\<lparr>batch := (batch run)\<lparr>items := its[i := it2], progress := i + 1\<rparr>,
                  localItems := its[i := it2]\<rparr>)
       \<or> itemStatus it \<noteq> COMPLETED \<and> itemStatus it \<noteq> SKIPPED \<and> matchedSpecs it \<noteq> [] \<and>
         (\<exists>it2 calls2. matchedSpecs it2 = matchedSpecs it \<and>
            (calls2 = aiCalls run \<or> calls2 = aiCalls run @ [i]) \<and>
            batchStep rf ac i run =
              run\<lparr>batch := (batch run)\<lparr>items := its[i := it2], progress := i + 1\<rparr>,
                  localItems := its[i := it2], aiCalls := calls2\<rparr>)"
proof (cases "itemStatus it = COMPLETED \<or> itemStatus it = SKIPPED")
  case True
  then show ?thesis by (auto simp: batchStep_def Let_def it_def)
next
  case False
  show ?thesis
  proof (cases "matchedSpecs it = []")
    case True
    let ?it2 = "it\<lparr>itemStatus := SKIPPED, itemError := Some ''Skipped: No matching Spec Row found''\<rparr>"
    have "batchStep rf ac i run =
              run\<lparr>batch := (batch run)\<lparr>items := its[i := ?it2], progress := i + 1\<rparr>,
                  localItems := its[i := ?it2]\<rparr>"
      using False True by (simp add: batchStep_def Let_def it_def its_def)
    moreover have "itemStatus ?it2 = SKIPPED \<and> matchedSpecs ?it2 = matchedSpecs it" by simp
    ultimately show ?thesis using False True by blast
  next
    case ne: False
    let ?it1 = "it\<lparr>itemStatus := PROCESSING\<rparr>"
    let ?res = "(case rf (itemFile ?it1) of
                     Inl (Error msg) \<Rightarrow>
                       (?it1\<lparr>itemStatus := ERROR, itemError := Some msg\<rparr>, aiCalls run)
                   | Inr base64Content \<Rightarrow>
                       (case ac
                               \<lparr>inputType = Image, content = base64Content,
                                mimeType = fileType (itemFile ?it1),
                                fileName = Some (fileLabel (itemFile ?it1))\<rparr> of
                          Inl (Error msg) \<Rightarrow>
                            (?it1\<lparr>itemStatus := ERROR, itemError := Some msg\<rparr>,
                             aiCalls run @ [i])
                        | Inr aiResult \<Rightarrow>
                            (?it1\<lparr>aiResponse := Some aiResult,
                                 validations :=
                                   Some (map (\<lambda>spec. validateDimensions (dimensions aiResult) spec)
                                           (matchedSpecs ?it1)),
                                 itemStatus := COMPLETED\<rparr>,
                             aiCalls run @ [i])))"
    have shape: "matchedSpecs (fst ?res) = matchedSpecs it \<and>
                 (snd ?res = aiCalls run \<or> snd ?res = aiCalls run @ [i])"
      by (simp split: sum.split jsError.split)
    have "batchStep rf ac i run =
              run\<lparr>batch := (batch run)\<lparr>items := its[i := fst ?res], progress := i + 1\<rparr>,
                  localItems := its[i := fst ?res], aiCalls := snd ?res\<rparr>"
      using False ne
      by (simp add: batchStep_def Let_def it_def its_def split_beta
            split: sum.split jsError.split)
    with shape False ne show ?thesis by blast
  qed
qed


lemma batchInv_step:
  assumes inv: "batchInv its0 k run" and k: "k < length its0"
  shows "batchInv its0 (Suc k) (batchStep rf ac k run)"
proof -
  from inv have len: "length (localItems run) = length its0"
    and same: "items (batch run) = localItems run"
    and ms: "\<forall>j<length its0. matchedSpecs (localItems run ! j) = matchedSpecs (its0 ! j)"
    and later: "\<forall>j<length its0. k \<le> j \<longrightarrow> localItems run ! j = its0 ! j"
    and dn: "\<forall>j<k. matchedSpecs (its0 ! j) = [] \<and> itemStatus (its0 ! j) \<noteq> COMPLETED
           \<longrightarrow> itemStatus (localItems run ! j) = SKIPPED"
    and calls: "\<forall>j\<in>set (aiCalls run). j < k \<and> matchedSpecs (its0 ! j) \<noteq> []"
    by (simp_all add: batchInv_def)
  have cur: "localItems run ! k = its0 ! k" using later k by simp
  have kl: "k < length (localItems run)" using k len by simp
  consider
    (skip) "itemStatus (its0 ! k) = COMPLETED \<or> itemStatus (its0 ! k) = SKIPPED"
      "batchStep rf ac k run = run"
  | (empty) it2 where "matchedSpecs (its0 ! k) = []" "itemStatus it2 = SKIPPED"
      "matchedSpecs it2 = matchedSpecs (its0 ! k)"
      "batchStep rf ac k run =
         run\<lparr>batch := (batch run)\<lparr>items := (localItems run)[k := it2], progress := k + 1\<rparr>,
             localItems := (localItems run)[k := it2]\<rparr>"
  | (call) it2 calls2 where "matchedSpecs (its0 ! k) \<noteq> []"
      "matchedSpecs it2 = matchedSpecs (its0 ! k)"
      "calls2 = aiCalls run \<or> calls2 = aiCalls run @ [k]"
      "batchStep rf ac k run =
         run\<lparr>batch := (batch run)\<lparr>items := (localItems run)[k := it2], progress := k + 1\<rparr>,
             localItems := (localItems run)[k := it2], aiCalls := calls2\<rparr>"
    using batchStep_cases[of run k rf ac] unfolding cur by blast
  then show ?thesis
  proof cases
    case skip
    have "\<forall>j<Suc k. matchedSpecs (its0 ! j) = [] \<and> itemStatus (its0 ! j) \<noteq> COMPLETED
           \<longrightarrow> itemStatus (localItems run ! j) = SKIPPED"
      using dn skip(1) cur by (auto simp: less_Suc_eq)
    moreover have "\<forall>j\<in>set (aiCalls run). j < Suc k \<and> matchedSpecs (its0 ! j) \<noteq> []"
      using calls by (auto simp: less_Suc_eq)
    ultimately show ?thesis
      unfolding skip(2) batchInv_def using len same ms later by simp
  next
    case empty
    let ?its = "(localItems run)[k := it2]"
    have a: "\<forall>j<length its0. matchedSpecs (?its ! j) = matchedSpecs (its0 ! j)"
      using ms empty(3) len kl by (auto simp: nth_list_update)
    have b: "\<forall>j<length its0. Suc k \<le> j \<longrightarrow> ?its ! j = its0 ! j"
      using later kl by (auto simp: nth_list_update)
    have c: "\<forall>j<Suc k. matchedSpecs (its0 ! j) = [] \<and> itemStatus (its0 ! j) \<noteq> COMPLETED
           \<longrightarrow> itemStatus (?its ! j) = SKIPPED"
      using dn empty(2) kl by (auto simp: less_Suc_eq nth_list_update)
    have d: "\<forall>j\<in>set (aiCalls run). j < Suc k \<and> matchedSpecs (its0 ! j) \<noteq> []"
      using calls by (auto simp: less_Suc_eq)
    show ?thesis
      unfolding empty(4) batchInv_def using len a b c d by simp
  next
    case call
    let ?its = "(localItems run)[k := it2]"
    have a: "\<forall>j<length its0. matchedSpecs (?its ! j) = matchedSpecs (its0 ! j)"
      using ms call(2) len kl by (auto simp: nth_list_update)
    have b: "\<forall>j<length its0. Suc k \<le> j \<longrightarrow> ?its ! j = its0 ! j"
      using later kl by (auto simp: nth_list_update)
    have c: "\<forall>j<Suc k. matchedSpecs (its0 ! j) = [] \<and> itemStatus (its0 ! j) \<noteq> COMPLETED
           \<longrightarrow> itemStatus (?its ! j) = SKIPPED"
      using dn call(1) kl by (auto simp: less_Suc_eq nth_list_update)
    have d: "\<forall>j\<in>set calls2. j < Suc k \<and> matchedSpecs (its0 ! j) \<noteq> []"
      using calls call(1,3) by (auto simp: less_Suc_eq)
    show ?thesis
      unfolding call(4) batchInv_def using len a b c d by simp
  qed
qed

lemma batchInv_fold:
  assumes "batchInv its0 0 run0"
  shows "n \<le> length its0 \<Longrightarrow> batchInv its0 n (fold (batchStep rf ac) [0..<n] run0)"
proof (induction n)
  case 0
  show ?case using assms by simp
next
  case (Suc n)
  then have "batchInv its0 n (fold (batchStep rf ac) [0..<n] run0)" by simp
  then have "batchInv its0 (Suc n) (batchStep rf ac n (fold (batchStep rf ac) [0..<n] run0))"
    using Suc.prems by (intro batchInv_step) simp_all
  then show ?case by simp
qed

lemma processBatch_inv:
  assumes "\<not> isProcessing st"
  shows "batchInv (items st) (length (items st)) (processBatch rf ac st)"
proof -
  let ?run0 = "\<lparr>batch = st\<lparr>isProcessing := True\<rparr>, localItems = items st, aiCalls = []\<rparr>"
  have "batchInv (items st) 0 ?run0" by (simp add: batchInv_def)
  from batchInv_fold[OF this, of "length (items st)" rf ac]
  have "batchInv (items st) (length (items st))
          (fold (batchStep rf ac) [0..<length (items st)] ?run0)"
    by simp
  then show ?thesis using assms by (simp add: processBatch_def Let_def batchInv_def)
qed

lemma handleBatchSelection_items:
  "length (items (handleBatchSelection lc clock specs files)) = length files \<and>
   \<not> isProcessing (handleBatchSelection lc clock specs files) \<and>
   (\<forall>i<length files.
      itemStatus (items (handleBatchSelection lc clock specs files) ! i) = PENDING \<and>
      itemFile (items (handleBatchSelection lc clock specs files) ! i) = files ! i \<and>
      matchedSpecs (items (handleBatchSelection lc clock specs files) ! i) =
        (if length specs > 0 then findAllMatchingSpecs lc (fileLabel (files ! i)) specs else []))"
  by (simp add: handleBatchSelection_def Let_def nth_enumerate_eq)

text \<open>
  Claim C6. In \<^verbatim>\<open>processBatch\<close>, an item whose list of matched entries is empty is
  marked SKIPPED (unless it was completed already) and no extraction call is issued for
  it; every extraction call is issued for an item with at least one matched entry. The
  matches are those \<^verbatim>\<open>handleBatchSelection\<close> computed when the batch was set up, before
  the run: for a batch it built, the calls go exactly to files the matcher found an entry
  for, and the other files end SKIPPED.
\<close>

theorem skipped_before_extraction:
  "(\<not> isProcessing st \<longrightarrow>
      (\<forall>i<length (items st). matchedSpecs (items st ! i) = [] \<longrightarrow>
          i \<notin> set (aiCalls (processBatch readFile analyzeContent st)) \<and>
          (itemStatus (items st ! i) \<noteq> COMPLETED \<longrightarrow>
             itemStatus (items (batch (processBatch readFile analyzeContent st)) ! i) = SKIPPED)) \<and>
      (\<forall>i\<in>set (aiCalls (processBatch readFile analyzeContent st)).
          i < length (items st) \<and> matchedSpecs (items st ! i) \<noteq> [])) \<and>
   (\<forall>i<length files. findAllMatchingSpecs lc (fileLabel (files ! i)) specs = [] \<longrightarrow>
      i \<notin> set (aiCalls (processBatch readFile analyzeContent
                          (handleBatchSelection lc clock specs files))) \<and>
      itemStatus (items (batch (processBatch readFile analyzeContent
                          (handleBatchSelection lc clock specs files))) ! i) = SKIPPED) \<and>
   (\<forall>i\<in>set (aiCalls (processBatch readFile analyzeContent
                          (handleBatchSelection lc clock specs files))).
      i < length files \<and> findAllMatchingSpecs lc (fileLabel (files ! i)) specs \<noteq> [])"
proof -
  have gen: "\<And>st :: BatchState. \<not> isProcessing st \<Longrightarrow>
      (\<forall>i<length (items st). matchedSpecs (items st ! i) = [] \<longrightarrow>
          i \<notin> set (aiCalls (processBatch readFile analyzeContent st)) \<and>
          (itemStatus (items st ! i) \<noteq> COMPLETED \<longrightarrow>
             itemStatus (items (batch (processBatch readFile analyzeContent st)) ! i) = SKIPPED)) \<and>
      (\<forall>i\<in>set (aiCalls (processBatch readFile analyzeContent st)).
          i < length (items st) \<and> matchedSpecs (items st ! i) \<noteq> [])"
  proof -
    fix st :: BatchState
    assume "\<not> isProcessing st"
    from processBatch_inv[OF this, of readFile analyzeContent]
    show "(\<forall>i<length (items st). matchedSpecs (items st ! i) = [] \<longrightarrow>
          i \<notin> set (aiCalls (processBatch readFile analyzeContent st)) \<and>
          (itemStatus (items st ! i) \<noteq> COMPLETED \<longrightarrow>
             itemStatus (items (batch (processBatch readFile analyzeContent st)) ! i) = SKIPPED)) \<and>
      (\<forall>i\<in>set (aiCalls (processBatch readFile analyzeContent st)).
          i < length (items st) \<and> matchedSpecs (items st ! i) \<noteq> [])"
      unfolding batchInv_def by auto
  qed
  let ?st = "handleBatchSelection lc clock specs files"
  note h = handleBatchSelection_items[of lc clock specs files]
  from h have np: "\<not> isProcessing ?st" by simp
  note g = gen[OF np]
  have sel1: "\<forall>i<length files. findAllMatchingSpecs lc (fileLabel (files ! i)) specs = [] \<longrightarrow>
      i \<notin> set (aiCalls (processBatch readFile analyzeContent ?st)) \<and>
      itemStatus (items (batch (processBatch readFile analyzeContent ?st)) ! i) = SKIPPED"
  proof (intro allI impI)
    fix i
    assume i: "i < length files" and e: "findAllMatchingSpecs lc (fileLabel (files ! i)) specs = []"
    from h i have il: "i < length (items ?st)" by simp
    from h i e have m: "matchedSpecs (items ?st ! i) = []" by simp
    from h i have p: "itemStatus (items ?st ! i) \<noteq> COMPLETED" by simp
    from g il m p
    show "i \<notin> set (aiCalls (processBatch readFile analyzeContent ?st)) \<and>
      itemStatus (items (batch (processBatch readFile analyzeContent ?st)) ! i) = SKIPPED"
      by blast
  qed
  have sel2: "\<forall>i\<in>set (aiCalls (processBatch readFile analyzeContent ?st)).
      i < length files \<and> findAllMatchingSpecs lc (fileLabel (files ! i)) specs \<noteq> []"
  proof
    fix i
    assume "i \<in> set (aiCalls (processBatch readFile analyzeContent ?st))"
    with g have il: "i < length (items ?st)" and m: "matchedSpecs (items ?st ! i) \<noteq> []"
      by blast+
    from il h have i: "i < length files" by simp
    with h m have "findAllMatchingSpecs lc (fileLabel (files ! i)) specs \<noteq> []"
      by (auto split: if_splits)
    with i show "i < length files \<and> findAllMatchingSpecs lc (fileLabel (files ! i)) specs \<noteq> []"
      by simp
  qed
  from gen[of st] sel1 sel2 show ?thesis by blast
qed







theorem skipped_before_extraction_witness:
  "aiCalls (processBatch (\<lambda>f. Inr (fileData f)) (\<lambda>i. Inr lampResponse)
      (handleBatchSelection codeUnitCompare (\<lambda>i. 0) [sideTable, roundSideTable] [lampFile, tableFile])) = [1] \<and>
   0 \<notin> set (aiCalls (processBatch (\<lambda>f. Inr (fileData f)) (\<lambda>i. Inr lampResponse)
      (handleBatchSelection codeUnitCompare (\<lambda>i. 0) [sideTable, roundSideTable] [lampFile, tableFile]))) \<and>
   itemStatus (items (batch (processBatch (\<lambda>f. Inr (fileData f)) (\<lambda>i. Inr lampResponse)
      (handleBatchSelection codeUnitCompare (\<lambda>i. 0) [sideTable, roundSideTable] [lampFile, tableFile]))) ! 0)
     = SKIPPED \<and>
   itemStatus (items (batch (processBatch (\<lambda>f. Inr (fileData f)) (\<lambda>i. Inr lampResponse)
      (handleBatchSelection codeUnitCompare (\<lambda>i. 0) [sideTable, roundSideTable] [lampFile, tableFile]))) ! 1)
     = COMPLETED"
proof -
  let ?files = "[lampFile, tableFile]"
  let ?run = "processBatch (\<lambda>f. Inr (fileData f)) (\<lambda>i. Inr lampResponse)
      (handleBatchSelection codeUnitCompare (\<lambda>i. 0) [sideTable, roundSideTable] ?files)"
  have e: "findAllMatchingSpecs codeUnitCompare (fileLabel (?files ! 0)) [sideTable, roundSideTable] = []"
    by code_simp
  have l: "(0::nat) < length ?files" by simp
  note t = skipped_before_extraction[of sampleBatch "\<lambda>f. Inr (fileData f)" "\<lambda>i. Inr lampResponse"
      ?files codeUnitCompare "[sideTable, roundSideTable]" "\<lambda>i. 0"]
  from t l e have a: "0 \<notin> set (aiCalls ?run) \<and> itemStatus (items (batch ?run) ! 0) = SKIPPED"
    by blast
  have c: "aiCalls ?run = [1]" by code_simp
  have d: "itemStatus (items (batch ?run) ! 1) = COMPLETED" by code_simp
  from a c d show ?thesis by blast
qed

section \<open>The reference table: scanned columns and the column range\<close>

lemma collectDimensions_concat:
  "collectDimensions config aks r acc =
     acc @ concat (map (\<lambda>(key, v). filter (\<lambda>num. num > 0 \<and> num < 2000) (extractNumbers v))
                    (filter (\<lambda>(key, v). scanned config aks key) r))"
  by (induction r arbitrary: acc) auto

lemma filter_concat_map:
  "concat (map (\<lambda>(key, v). filter P (f v)) xs) = filter P (concat (map (\<lambda>(key, v). f v) xs))"
  by (induction xs) auto

lemma buildSpec_dims:
  "expectedDimensions (buildSpec numStr config keys pnk aks r) =
     sort (filter (\<lambda>n. 0 < n \<and> n < 2000)
             (concat (map (\<lambda>(key, v). extractNumbers v)
                        (filter (\<lambda>(key, v). scanned config aks key) r))))"
  by (simp add: buildSpec_def Let_def collectDimensions_concat filter_concat_map)

lemma buildSpec_row: "originalRow (buildSpec numStr config keys pnk aks r) = r"
  by (simp add: buildSpec_def Let_def)

lemma parseSpecFile_Inr:
  "parseSpecFile capacity numStr (Inr (jsonData, headers)) config =
     (if jsonData = [] then Inr []
      else case allowedKeysOf capacity config headers of
             Inl err \<Rightarrow> Inl err
           | Inr allowedKeys \<Rightarrow>
               Inr (filter (\<lambda>s. productName s \<noteq> [] \<and> length (productSlug s) > 0)
                      (map (buildSpec numStr config (map fst (hd jsonData))
                              (if findProductNameKey productNamePatterns (map fst (hd jsonData)) = []
                               then ''Product Name''
                               else findProductNameKey productNamePatterns (map fst (hd jsonData)))
                              allowedKeys)
                         jsonData)))"
  by (cases jsonData) (simp_all add: parseSpecFile_def Let_def split: sum.split)

lemma parseSpecFile_resolves:
  "allowedKeysOf capacity config headers = Inr allowedKeys \<Longrightarrow>
   \<exists>specs. parseSpecFile capacity numStr (Inr (jsonData, headers)) config = Inr specs"
  by (simp add: parseSpecFile_Inr)

lemma parseSpecFile_rejects:
  "allowedKeysOf capacity config headers = Inl err \<Longrightarrow> jsonData \<noteq> [] \<Longrightarrow>
   parseSpecFile capacity numStr (Inr (jsonData, headers)) config = Inl err"
  by (simp add: parseSpecFile_Inr)

lemma parseSpecFile_entries:
  assumes "parseSpecFile capacity numStr (Inr (jsonData, headers)) config = Inr specs"
    and "s \<in> set specs"
  shows "\<exists>allowedKeys. allowedKeysOf capacity config headers = Inr allowedKeys \<and>
           (\<exists>keys pnk. \<exists>r\<in>set jsonData. s = buildSpec numStr config keys pnk allowedKeys r)"
proof -
  let ?keys = "map fst (hd jsonData)"
  let ?pnk = "if findProductNameKey productNamePatterns ?keys = [] then ''Product Name''
              else findProductNameKey productNamePatterns ?keys"
  from assms have ne: "jsonData \<noteq> []" unfolding parseSpecFile_Inr by (auto split: if_splits)
  with assms(1) obtain aks where k: "allowedKeysOf capacity config headers = Inr aks"
    unfolding parseSpecFile_Inr by (cases "allowedKeysOf capacity config headers") simp_all
  from assms ne have "s \<in> set (map (buildSpec numStr config ?keys ?pnk aks) jsonData)"
    unfolding parseSpecFile_Inr k by auto
  then have "\<exists>r\<in>set jsonData. s = buildSpec numStr config ?keys ?pnk aks r"
    by auto
  with k show ?thesis by blast
qed

lemma sku_numbers: "extractNumbers (CStr ''SKU-20240501'') = [- 20240501]"
  by (simp add: extractNumbers_def matchNumber_def matchUnsigned_def numberOf_def isDigit_def
        charCode_def)

text \<open>
  Claim C4. For every sheet and configuration, the expected dimensions of each entry
  \<^verbatim>\<open>parseSpecFile\<close> builds are exactly the numbers extracted from the scanned columns of
  its row (with a column range, the columns of the allowed keys the build computed) that
  lie strictly between 0 and 2000, concatenated across the columns and sorted ascending.
  In particular a cell "SKU-20240501" yields the single number -20240501 and so
  contributes nothing, whatever its column.
\<close>

theorem expectedDimensions_in_range:
  assumes "parseSpecFile capacity numStr (Inr (jsonData, headers)) config = Inr specs"
    and "s \<in> set specs"
  shows "\<exists>allowedKeys. allowedKeysOf capacity config headers = Inr allowedKeys \<and>
         originalRow s \<in> set jsonData \<and>
         expectedDimensions s =
           sort (filter (\<lambda>n. 0 < n \<and> n < 2000)
                   (concat (map (\<lambda>(key, v). extractNumbers v)
                              (filter (\<lambda>(key, v). scanned config allowedKeys key)
                                 (originalRow s))))) \<and>
         (\<forall>n\<in>set (expectedDimensions s). 0 < n \<and> n < 2000) \<and>
         sorted (expectedDimensions s) \<and>
         extractNumbers (CStr ''SKU-20240501'') = [- 20240501] \<and>
         collectDimensions config aks [(key, CStr ''SKU-20240501'')] acc = acc"
proof -
  from parseSpecFile_entries[OF assms] obtain allowedKeys keys pnk r where
    k: "allowedKeysOf capacity config headers = Inr allowedKeys" and r: "r \<in> set jsonData"
    and s: "s = buildSpec numStr config keys pnk allowedKeys r"
    by blast
  have row: "originalRow s = r" unfolding s by (rule buildSpec_row)
  have dims: "expectedDimensions s =
           sort (filter (\<lambda>n. 0 < n \<and> n < 2000)
                   (concat (map (\<lambda>(key, v). extractNumbers v)
                              (filter (\<lambda>(key, v). scanned config allowedKeys key)
                                 (originalRow s)))))"
    unfolding row unfolding s by (rule buildSpec_dims)
  have rng: "\<forall>n\<in>set (expectedDimensions s). 0 < n \<and> n < 2000"
    unfolding dims by simp
  have srt: "sorted (expectedDimensions s)" unfolding dims by simp
  have sku: "collectDimensions config aks [(key, CStr ''SKU-20240501'')] acc = acc"
    by (simp add: sku_numbers)
  from r row have "originalRow s \<in> set jsonData" by simp
  with k dims rng srt sku sku_numbers show ?thesis by blast
qed

lemma rangeLoop_exact:
  "- (2 ^ 53) < a \<Longrightarrow> b + 1 < 2 ^ 53 \<Longrightarrow> b - a < int room \<Longrightarrow>
   rangeLoop room (Fin a) (Fin b) acc = Inr (acc @ map Fin [a..b])"
proof (induction room arbitrary: a acc)
  case 0
  then show ?case by (simp add: jsLe_def)
next
  case (Suc room)
  show ?case
  proof (cases "a \<le> b")
    case False
    then show ?thesis by (simp add: jsLe_def)
  next
    case True
    with Suc.prems have "\<bar>a + 1\<bar> < 2 ^ 53" by simp
    then have n: "jsAdd (Fin a) 1 = Fin (a + 1)" by (simp add: jsAdd_def toDouble_small)
    have "rangeLoop room (Fin (a + 1)) (Fin b) (acc @ [Fin a]) =
            Inr ((acc @ [Fin a]) @ map Fin [a + 1..b])"
      using Suc.prems by (intro Suc.IH) simp_all
    moreover have "[a..b] = a # [a + 1..b]" using True by (simp add: upto_rec1)
    ultimately show ?thesis using True by (simp add: jsLe_def n)
  qed
qed

lemma rangeLoop_overflow:
  "- (2 ^ 53) < a \<Longrightarrow> b + 1 < 2 ^ 53 \<Longrightarrow> int room \<le> b - a \<Longrightarrow>
   rangeLoop room (Fin a) (Fin b) acc = Inl (Error ''Invalid array length'')"
proof (induction room arbitrary: a acc)
  case 0
  then show ?case by (simp add: jsLe_def)
next
  case (Suc room)
  then have le: "a \<le> b" by simp
  with Suc.prems have "\<bar>a + 1\<bar> < 2 ^ 53" by simp
  then have n: "jsAdd (Fin a) 1 = Fin (a + 1)" by (simp add: jsAdd_def toDouble_small)
  have "rangeLoop room (Fin (a + 1)) (Fin b) (acc @ [Fin a]) =
          Inl (Error ''Invalid array length'')"
    using Suc.prems by (intro Suc.IH) simp_all
  then show ?case using le by (simp add: jsLe_def n)
qed

lemma rangeLoop_stuck:
  "jsAdd i 1 = i \<Longrightarrow> jsLe i e \<Longrightarrow> rangeLoop room i e acc = Inl (Error ''Invalid array length'')"
  by (induction room arbitrary: acc) simp_all

lemma rangeLoop_inverted: "\<not> jsLe i e \<Longrightarrow> rangeLoop room i e acc = Inr acc"
  by (cases room) simp_all

lemma map_filter_map: "List.map_filter f (map g xs) = List.map_filter (\<lambda>x. f (g x)) xs"
  by (induction xs) (auto simp: List.map_filter_simps split: option.split)

lemma map_filter_restrict:
  "(\<And>x. \<not> Q x \<Longrightarrow> f x = None) \<Longrightarrow> List.map_filter f (filter Q xs) = List.map_filter f xs"
  by (induction xs) (auto simp: List.map_filter_simps split: option.split)

lemma map_filter_cong_list:
  "(\<And>x. x \<in> set xs \<Longrightarrow> f x = g x) \<Longrightarrow> List.map_filter f xs = List.map_filter g xs"
  by (induction xs) (auto simp: List.map_filter_simps split: option.split)

lemma allowedKeysOf_range:
  assumes "startCol cfg \<noteq> []" and "endCol cfg \<noteq> []"
    and "colLetterToIndex (startCol cfg) = Fin a" and "colLetterToIndex (endCol cfg) = Fin b"
    and "- (2 ^ 53) < a" and "b + 1 < 2 ^ 53" and "b - a < int capacity"
  shows "allowedKeysOf capacity (Some cfg) headers =
           Inr (List.map_filter (\<lambda>i. headers ! nat i)
                  (filter (\<lambda>i. 0 \<le> i \<and> i < int (length headers)) [a..b]))"
proof -
  let ?Q = "\<lambda>i. 0 \<le> i \<and> i < int (length headers)"
  have "allowedIndicesOf capacity (Some cfg) headers = rangeLoop capacity (Fin a) (Fin b) []"
    using assms(1-4) by (simp add: allowedIndicesOf_def Let_def)
  also have "\<dots> = Inr (map Fin [a..b])"
    using rangeLoop_exact[OF assms(5,6,7), of "[]"] by simp
  finally have "allowedKeysOf capacity (Some cfg) headers =
                  Inr (List.map_filter (\<lambda>i. headerAt headers (Fin i)) [a..b])"
    by (simp add: allowedKeysOf_def map_filter_map)
  also have "List.map_filter (\<lambda>i. headerAt headers (Fin i)) [a..b] =
             List.map_filter (\<lambda>i. headerAt headers (Fin i)) (filter ?Q [a..b])"
    by (rule map_filter_restrict[symmetric]) (auto simp: headerAt_def)
  also have "\<dots> = List.map_filter (\<lambda>i. headers ! nat i) (filter ?Q [a..b])"
    by (rule map_filter_cong_list) (auto simp: headerAt_def)
  finally show ?thesis .
qed

lemma allowedKeysOf_overflow:
  assumes "startCol cfg \<noteq> []" and "endCol cfg \<noteq> []"
    and "colLetterToIndex (startCol cfg) = Fin a" and "colLetterToIndex (endCol cfg) = Fin b"
    and "- (2 ^ 53) < a" and "b + 1 < 2 ^ 53" and "int capacity \<le> b - a"
  shows "allowedKeysOf capacity (Some cfg) headers = Inl (Error ''Invalid array length'')"
proof -
  have "allowedIndicesOf capacity (Some cfg) headers = rangeLoop capacity (Fin a) (Fin b) []"
    using assms(1-4) by (simp add: allowedIndicesOf_def Let_def)
  also have "\<dots> = Inl (Error ''Invalid array length'')"
    by (rule rangeLoop_overflow[OF assms(5,6,7)])
  finally show ?thesis by (simp add: allowedKeysOf_def)
qed

lemma allowedKeysOf_stuck:
  assumes "startCol cfg \<noteq> []" and "endCol cfg \<noteq> []"
    and "jsAdd (colLetterToIndex (startCol cfg)) 1 = colLetterToIndex (startCol cfg)"
    and "jsLe (colLetterToIndex (startCol cfg)) (colLetterToIndex (endCol cfg))"
  shows "allowedKeysOf capacity (Some cfg) headers = Inl (Error ''Invalid array length'')"
proof -
  have "allowedIndicesOf capacity (Some cfg) headers =
          rangeLoop capacity (colLetterToIndex (startCol cfg)) (colLetterToIndex (endCol cfg)) []"
    using assms(1,2) by (simp add: allowedIndicesOf_def Let_def)
  also have "\<dots> = Inl (Error ''Invalid array length'')"
    by (rule rangeLoop_stuck[OF assms(3,4)])
  finally show ?thesis by (simp add: allowedKeysOf_def)
qed

lemma allowedKeysOf_inverted:
  assumes "startCol cfg \<noteq> []" and "endCol cfg \<noteq> []"
    and "\<not> jsLe (colLetterToIndex (startCol cfg)) (colLetterToIndex (endCol cfg))"
  shows "allowedKeysOf capacity (Some cfg) headers = Inr []"
  using assms
  by (simp add: allowedKeysOf_def allowedIndicesOf_def Let_def rangeLoop_inverted
        List.map_filter_simps)

lemma allowedKeysOf_no_range:
  "config = None \<or> (\<exists>cfg. config = Some cfg \<and> (startCol cfg = [] \<or> endCol cfg = [])) \<Longrightarrow>
   \<exists>allowedKeys. allowedKeysOf capacity config headers = Inr allowedKeys"
  by (auto simp: allowedKeysOf_def allowedIndicesOf_def)

lemma upto_1_3: "[1..3::int] = [1, 2, 3]"
  by code_simp

lemma sample_cells:
  "extractNumbers (CNum 24) = [24]" "extractNumbers (CStr ''36.5 in'') = [36.5]"
  by (simp_all add: extractNumbers_def matchNumber_def matchUnsigned_def numberOf_def isDigit_def
        charCode_def)

lemma sample_keys_BD:
  "allowedKeysOf 4294967295 (Some \<lparr>startCol = ''B'', endCol = ''D''\<rparr>) sampleHeaders =
     Inr [''W'', ''SKU'', ''H'']"
proof -
  let ?cfg = "\<lparr>startCol = ''B'', endCol = ''D''\<rparr>"
  have "allowedKeysOf 4294967295 (Some ?cfg) sampleHeaders =
          Inr (List.map_filter (\<lambda>i. sampleHeaders ! nat i)
                 (filter (\<lambda>i. 0 \<le> i \<and> i < int (length sampleHeaders)) [1..3]))"
    by (rule allowedKeysOf_range) (simp_all add: sample_indices)
  then show ?thesis
    unfolding upto_1_3 by (simp add: sampleHeaders_def List.map_filter_simps)
qed

lemma sample_name:
  "findProductNameKey productNamePatterns (map fst sampleRow) = ''Product Name''"
  "sizeKeyOf (map fst sampleRow) = ''Size''"
  "trim ''Side Table'' = ''Side Table''" "toSlug ''Side Table'' = ''side-table''"
  by code_simp+

lemma trim_Nil: "trim [] = []"
  by (simp add: trim_def)

lemma sample_parse_BD:
  "parseSpecFile 4294967295 (\<lambda>n. ''0'') (Inr ([sampleRow], sampleHeaders))
     (Some \<lparr>startCol = ''B'', endCol = ''D''\<rparr>) = Inr [sampleEntry]"
proof -
  have d: "collectDimensions (Some \<lparr>startCol = ''B'', endCol = ''D''\<rparr>) [''W'', ''SKU'', ''H'']
             sampleRow [] = [24, 36.5]"
    by (simp add: sampleRow_def scanned_def sample_cells sku_numbers)
  have b: "buildSpec (\<lambda>n. ''0'') (Some \<lparr>startCol = ''B'', endCol = ''D''\<rparr>) (map fst sampleRow)
             ''Product Name'' [''W'', ''SKU'', ''H''] sampleRow = sampleEntry"
    unfolding buildSpec_def Let_def d sample_name(2)
    by (simp add: sampleRow_def orEmpty_def toStr_def sample_name(3,4) sampleEntry_def trim_Nil)
  show ?thesis
    unfolding parseSpecFile_Inr sample_keys_BD
    by (simp add: sample_name(1) b) (simp add: sampleEntry_def)
qed

theorem expectedDimensions_in_range_witness:
  "parseSpecFile 4294967295 (\<lambda>n. ''0'') (Inr ([sampleRow], sampleHeaders))
     (Some \<lparr>startCol = ''B'', endCol = ''D''\<rparr>) = Inr [sampleEntry] \<and>
   allowedKeysOf 4294967295 (Some \<lparr>startCol = ''B'', endCol = ''D''\<rparr>) sampleHeaders =
     Inr [''W'', ''SKU'', ''H''] \<and>
   expectedDimensions sampleEntry = [24, 36.5] \<and>
   originalRow sampleEntry \<in> set [sampleRow] \<and>
   expectedDimensions sampleEntry =
     sort (filter (\<lambda>n. 0 < n \<and> n < 2000)
             (concat (map (\<lambda>(key, v). extractNumbers v)
                (filter (\<lambda>(key, v). scanned (Some \<lparr>startCol = ''B'', endCol = ''D''\<rparr>)
                                   [''W'', ''SKU'', ''H''] key)
                   (originalRow sampleEntry))))) \<and>
   sorted (expectedDimensions sampleEntry)"
proof -
  have m: "sampleEntry \<in> set [sampleEntry]" by simp
  have e: "expectedDimensions sampleEntry = [24, 36.5]" by (simp add: sampleEntry_def)
  from expectedDimensions_in_range[OF sample_parse_BD m]
  obtain allowedKeys where
    k: "allowedKeysOf 4294967295 (Some \<lparr>startCol = ''B'', endCol = ''D''\<rparr>) sampleHeaders =
          Inr allowedKeys"
    and r: "originalRow sampleEntry \<in> set [sampleRow]"
    and d: "expectedDimensions sampleEntry =
     sort (filter (\<lambda>n. 0 < n \<and> n < 2000)
             (concat (map (\<lambda>(key, v). extractNumbers v)
                (filter (\<lambda>(key, v). scanned (Some \<lparr>startCol = ''B'', endCol = ''D''\<rparr>)
                                   allowedKeys key)
                   (originalRow sampleEntry)))))"
    and s: "sorted (expectedDimensions sampleEntry)"
    by blast
  from k have a: "allowedKeys = [''W'', ''SKU'', ''H'']" unfolding sample_keys_BD by simp
  from sample_parse_BD sample_keys_BD e r d[unfolded a] s show ?thesis by blast
qed

lemma buildSpec_no_keys:
  assumes "startCol cfg \<noteq> []"
  shows "expectedDimensions (buildSpec numStr (Some cfg) keys pnk [] r) = []"
proof -
  have "filter (\<lambda>(key, v). scanned (Some cfg) [] key) r = []"
    using assms by (auto simp: scanned_def filter_empty_conv)
  then show ?thesis by (simp add: buildSpec_dims)
qed

lemma upto_2_25_inside: "filter (\<lambda>i. 0 \<le> i \<and> i < 4) [2..25] = [2, 3]"
  by code_simp

text \<open>
  Claim C9, as the code has it. A configured column range makes the table build fail
  only by the size of its list of indices. If the range is inverted (the start index is
  not at most the end index) the set of allowed keys is empty, the build resolves, and
  every entry built has no expected dimensions. If the indices from the start to the end
  are fewer than an array can hold (both being below \<open>2 ^ 53\<close> in size), the build
  resolves, and the allowed keys are the headers at the indices of the range that lie
  inside the header row, the indices beyond it (or below zero) being dropped. Without a
  complete range the build resolves. If the indices are more than an array can hold, the
  build of a sheet that has rows is rejected.
\<close>

theorem column_range_degrades:
  "(startCol cfg \<noteq> [] \<and> endCol cfg \<noteq> [] \<and>
      \<not> jsLe (colLetterToIndex (startCol cfg)) (colLetterToIndex (endCol cfg)) \<longrightarrow>
        allowedKeysOf capacity (Some cfg) headers = Inr [] \<and>
        (\<exists>specs. parseSpecFile capacity numStr (Inr (jsonData, headers)) (Some cfg) = Inr specs \<and>
                 (\<forall>s\<in>set specs. expectedDimensions s = []))) \<and>
   (startCol cfg \<noteq> [] \<and> endCol cfg \<noteq> [] \<and>
      colLetterToIndex (startCol cfg) = Fin a \<and> colLetterToIndex (endCol cfg) = Fin b \<and>
      - (2 ^ 53) < a \<and> b + 1 < 2 ^ 53 \<and> b - a < int capacity \<longrightarrow>
        allowedKeysOf capacity (Some cfg) headers =
          Inr (List.map_filter (\<lambda>i. headers ! nat i)
                 (filter (\<lambda>i. 0 \<le> i \<and> i < int (length headers)) [a..b])) \<and>
        (\<exists>specs. parseSpecFile capacity numStr (Inr (jsonData, headers)) (Some cfg) = Inr specs)) \<and>
   (config = None \<or> (\<exists>c. config = Some c \<and> (startCol c = [] \<or> endCol c = [])) \<longrightarrow>
        (\<exists>specs. parseSpecFile capacity numStr (Inr (jsonData, headers)) config = Inr specs)) \<and>
   (startCol cfg \<noteq> [] \<and> endCol cfg \<noteq> [] \<and>
      colLetterToIndex (startCol cfg) = Fin a \<and> colLetterToIndex (endCol cfg) = Fin b \<and>
      - (2 ^ 53) < a \<and> b + 1 < 2 ^ 53 \<and> int capacity \<le> b - a \<and> jsonData \<noteq> [] \<longrightarrow>
        (\<exists>err. parseSpecFile capacity numStr (Inr (jsonData, headers)) (Some cfg) = Inl err))"
proof -
  have a: "startCol cfg \<noteq> [] \<and> endCol cfg \<noteq> [] \<and>
      \<not> jsLe (colLetterToIndex (startCol cfg)) (colLetterToIndex (endCol cfg)) \<longrightarrow>
        allowedKeysOf capacity (Some cfg) headers = Inr [] \<and>
        (\<exists>specs. parseSpecFile capacity numStr (Inr (jsonData, headers)) (Some cfg) = Inr specs \<and>
                 (\<forall>s\<in>set specs. expectedDimensions s = []))"
  proof
    assume h: "startCol cfg \<noteq> [] \<and> endCol cfg \<noteq> [] \<and>
      \<not> jsLe (colLetterToIndex (startCol cfg)) (colLetterToIndex (endCol cfg))"
    then have k: "allowedKeysOf capacity (Some cfg) headers = Inr []"
      by (simp add: allowedKeysOf_inverted)
    from parseSpecFile_resolves[OF k] obtain specs where
      p: "parseSpecFile capacity numStr (Inr (jsonData, headers)) (Some cfg) = Inr specs"
      by blast
    from h have sc: "startCol cfg \<noteq> []" by simp
    have "\<forall>s\<in>set specs. expectedDimensions s = []"
    proof
      fix s assume "s \<in> set specs"
      from parseSpecFile_entries[OF p this] obtain aks keys pnk r where
        "allowedKeysOf capacity (Some cfg) headers = Inr aks"
        "s = buildSpec numStr (Some cfg) keys pnk aks r"
        by blast
      with k have "s = buildSpec numStr (Some cfg) keys pnk [] r" by simp
      then show "expectedDimensions s = []" by (simp only: buildSpec_no_keys[OF sc])
    qed
    with k p show "allowedKeysOf capacity (Some cfg) headers = Inr [] \<and>
        (\<exists>specs. parseSpecFile capacity numStr (Inr (jsonData, headers)) (Some cfg) = Inr specs \<and>
                 (\<forall>s\<in>set specs. expectedDimensions s = []))"
      by blast
  qed
  have b: "startCol cfg \<noteq> [] \<and> endCol cfg \<noteq> [] \<and>
      colLetterToIndex (startCol cfg) = Fin a \<and> colLetterToIndex (endCol cfg) = Fin b \<and>
      - (2 ^ 53) < a \<and> b + 1 < 2 ^ 53 \<and> b - a < int capacity \<longrightarrow>
        allowedKeysOf capacity (Some cfg) headers =
          Inr (List.map_filter (\<lambda>i. headers ! nat i)
                 (filter (\<lambda>i. 0 \<le> i \<and> i < int (length headers)) [a..b])) \<and>
        (\<exists>specs. parseSpecFile capacity numStr (Inr (jsonData, headers)) (Some cfg) = Inr specs)"
  proof
    assume h: "startCol cfg \<noteq> [] \<and> endCol cfg \<noteq> [] \<and>
      colLetterToIndex (startCol cfg) = Fin a \<and> colLetterToIndex (endCol cfg) = Fin b \<and>
      - (2 ^ 53) < a \<and> b + 1 < 2 ^ 53 \<and> b - a < int capacity"
    then have h1: "startCol cfg \<noteq> []" and h2: "endCol cfg \<noteq> []"
      and h3: "colLetterToIndex (startCol cfg) = Fin a"
      and h4: "colLetterToIndex (endCol cfg) = Fin b"
      and h5: "- (2 ^ 53) < a" and h6: "b + 1 < 2 ^ 53" and h7: "b - a < int capacity"
      by simp_all
    have k: "allowedKeysOf capacity (Some cfg) headers =
          Inr (List.map_filter (\<lambda>i. headers ! nat i)
                 (filter (\<lambda>i. 0 \<le> i \<and> i < int (length headers)) [a..b]))"
      by (rule allowedKeysOf_range[OF h1 h2 h3 h4 h5 h6 h7])
    from k parseSpecFile_resolves[OF k]
    show "allowedKeysOf capacity (Some cfg) headers =
          Inr (List.map_filter (\<lambda>i. headers ! nat i)
                 (filter (\<lambda>i. 0 \<le> i \<and> i < int (length headers)) [a..b])) \<and>
        (\<exists>specs. parseSpecFile capacity numStr (Inr (jsonData, headers)) (Some cfg) = Inr specs)"
      by blast
  qed
  have c: "config = None \<or> (\<exists>c. config = Some c \<and> (startCol c = [] \<or> endCol c = [])) \<longrightarrow>
        (\<exists>specs. parseSpecFile capacity numStr (Inr (jsonData, headers)) config = Inr specs)"
  proof
    assume "config = None \<or> (\<exists>c. config = Some c \<and> (startCol c = [] \<or> endCol c = []))"
    from allowedKeysOf_no_range[OF this] obtain aks where
      "allowedKeysOf capacity config headers = Inr aks"
      by blast
    then show "\<exists>specs. parseSpecFile capacity numStr (Inr (jsonData, headers)) config = Inr specs"
      by (rule parseSpecFile_resolves)
  qed
  have d: "startCol cfg \<noteq> [] \<and> endCol cfg \<noteq> [] \<and>
      colLetterToIndex (startCol cfg) = Fin a \<and> colLetterToIndex (endCol cfg) = Fin b \<and>
      - (2 ^ 53) < a \<and> b + 1 < 2 ^ 53 \<and> int capacity \<le> b - a \<and> jsonData \<noteq> [] \<longrightarrow>
        (\<exists>err. parseSpecFile capacity numStr (Inr (jsonData, headers)) (Some cfg) = Inl err)"
  proof
    assume h: "startCol cfg \<noteq> [] \<and> endCol cfg \<noteq> [] \<and>
      colLetterToIndex (startCol cfg) = Fin a \<and> colLetterToIndex (endCol cfg) = Fin b \<and>
      - (2 ^ 53) < a \<and> b + 1 < 2 ^ 53 \<and> int capacity \<le> b - a \<and> jsonData \<noteq> []"
    then have h1: "startCol cfg \<noteq> []" and h2: "endCol cfg \<noteq> []"
      and h3: "colLetterToIndex (startCol cfg) = Fin a"
      and h4: "colLetterToIndex (endCol cfg) = Fin b"
      and h5: "- (2 ^ 53) < a" and h6: "b + 1 < 2 ^ 53" and h7: "int capacity \<le> b - a"
      and h8: "jsonData \<noteq> []"
      by simp_all
    have "allowedKeysOf capacity (Some cfg) headers = Inl (Error ''Invalid array length'')"
      by (rule allowedKeysOf_overflow[OF h1 h2 h3 h4 h5 h6 h7])
    from parseSpecFile_rejects[OF this h8]
    show "\<exists>err. parseSpecFile capacity numStr (Inr (jsonData, headers)) (Some cfg) = Inl err"
      by (rule exI)
  qed
  show ?thesis by (rule conjI[OF a conjI[OF b conjI[OF c d]]])
qed

theorem column_range_degrades_witness:
  "\<not> jsLe (colLetterToIndex ''D'') (colLetterToIndex ''B'') \<and>
   allowedKeysOf 4294967295 (Some \<lparr>startCol = ''D'', endCol = ''B''\<rparr>) sampleHeaders = Inr [] \<and>
   (\<exists>specs. parseSpecFile 4294967295 (\<lambda>n. ''0'') (Inr ([sampleRow], sampleHeaders))
              (Some \<lparr>startCol = ''D'', endCol = ''B''\<rparr>) = Inr specs \<and>
            list_all (\<lambda>s. expectedDimensions s = []) specs) \<and>
   colLetterToIndex ''C'' = Fin 2 \<and> colLetterToIndex ''Z'' = Fin 25 \<and>
   allowedKeysOf 4294967295 (Some \<lparr>startCol = ''C'', endCol = ''Z''\<rparr>) sampleHeaders =
     Inr [''SKU'', ''H''] \<and>
   (\<exists>specs. parseSpecFile 4294967295 (\<lambda>n. ''0'') (Inr ([sampleRow], sampleHeaders))
              (Some \<lparr>startCol = ''C'', endCol = ''Z''\<rparr>) = Inr specs)"
proof -
  let ?inv = "\<lparr>startCol = ''D'', endCol = ''B''\<rparr>"
  let ?wide = "\<lparr>startCol = ''C'', endCol = ''Z''\<rparr>"
  have i: "\<not> jsLe (colLetterToIndex ''D'') (colLetterToIndex ''B'')"
    by (simp add: sample_indices jsLe_def)
  then have h: "startCol ?inv \<noteq> [] \<and> endCol ?inv \<noteq> [] \<and>
      \<not> jsLe (colLetterToIndex (startCol ?inv)) (colLetterToIndex (endCol ?inv))"
    by simp
  note t = column_range_degrades[of ?inv 4294967295 sampleHeaders "\<lambda>n. ''0''" "[sampleRow]"
             0 0 None]
  from t h have k: "allowedKeysOf 4294967295 (Some ?inv) sampleHeaders = Inr []" by blast
  from t h obtain specs where
    p: "parseSpecFile 4294967295 (\<lambda>n. ''0'') (Inr ([sampleRow], sampleHeaders)) (Some ?inv) =
          Inr specs"
    and e: "\<forall>s\<in>set specs. expectedDimensions s = []"
    by blast
  from e have a: "list_all (\<lambda>s. expectedDimensions s = []) specs" by (simp add: list_all_iff)
  have g: "startCol ?wide \<noteq> [] \<and> endCol ?wide \<noteq> [] \<and>
      colLetterToIndex (startCol ?wide) = Fin 2 \<and> colLetterToIndex (endCol ?wide) = Fin 25 \<and>
      - (2 ^ 53) < (2::int) \<and> (25::int) + 1 < 2 ^ 53 \<and> (25::int) - 2 < int 4294967295"
    by (simp add: sample_indices)
  note u = column_range_degrades[of ?wide 4294967295 sampleHeaders "\<lambda>n. ''0''" "[sampleRow]"
             2 25 None]
  from u g have w0: "allowedKeysOf 4294967295 (Some ?wide) sampleHeaders =
          Inr (List.map_filter (\<lambda>i. sampleHeaders ! nat i)
                 (filter (\<lambda>i. 0 \<le> i \<and> i < int (length sampleHeaders)) [2..25]))"
    by blast
  have "length sampleHeaders = 4" by (simp add: sampleHeaders_def)
  then have w: "allowedKeysOf 4294967295 (Some ?wide) sampleHeaders = Inr [''SKU'', ''H'']"
    unfolding w0 by (simp add: upto_2_25_inside) (simp add: sampleHeaders_def List.map_filter_simps)
  from u g obtain specs' where
    q: "parseSpecFile 4294967295 (\<lambda>n. ''0'') (Inr ([sampleRow], sampleHeaders)) (Some ?wide) =
          Inr specs'"
    by blast
  from i k p a w q sample_indices(6) sample_indices(2) show ?thesis by blast
qed

text \<open>
  The claim as the specification states it, for every configured range, fails. The range
  from A to ZZZZZZZ has 8353082582 indices, more than the \<open>2 ^ 32 - 1\<close> elements an array
  can have, and the build of a sheet with one row is rejected. The range from
  ZZZZZZZZZZZZ to ZZZZZZZZZZZY is inverted as columns, but both ends are computed as
  99246114928149472, where adding one changes nothing: the loop fills the array with
  that one index and the build is rejected as well.
\<close>

theorem column_range_rejects:
  "colLetterToIndex ''A'' = Fin 0 \<and> colLetterToIndex ''ZZZZZZZ'' = Fin 8353082581 \<and>
   parseSpecFile 4294967295 sampleNumStr (Inr ([sampleRow], sampleHeaders))
     (Some \<lparr>startCol = ''A'', endCol = ''ZZZZZZZ''\<rparr>) = Inl (Error ''Invalid array length'') \<and>
   base26_value (map letterDigit ''ZZZZZZZZZZZY'') < base26_value (map letterDigit ''ZZZZZZZZZZZZ'') \<and>
   colLetterToIndex ''ZZZZZZZZZZZZ'' = Fin 99246114928149472 \<and>
   colLetterToIndex ''ZZZZZZZZZZZY'' = Fin 99246114928149472 \<and>
   parseSpecFile 4294967295 sampleNumStr (Inr ([sampleRow], sampleHeaders))
     (Some \<lparr>startCol = ''ZZZZZZZZZZZZ'', endCol = ''ZZZZZZZZZZZY''\<rparr>) =
       Inl (Error ''Invalid array length'')"
proof -
  let ?cfg = "\<lparr>startCol = ''A'', endCol = ''ZZZZZZZ''\<rparr>"
  let ?inv = "\<lparr>startCol = ''ZZZZZZZZZZZZ'', endCol = ''ZZZZZZZZZZZY''\<rparr>"
  have "allowedKeysOf 4294967295 (Some ?cfg) sampleHeaders = Inl (Error ''Invalid array length'')"
    by (rule allowedKeysOf_overflow[where a = 0 and b = 8353082581])
       (simp_all add: sample_indices)
  then have p: "parseSpecFile 4294967295 sampleNumStr (Inr ([sampleRow], sampleHeaders))
     (Some ?cfg) = Inl (Error ''Invalid array length'')"
    by (rule parseSpecFile_rejects) simp
  have "allowedKeysOf 4294967295 (Some ?inv) sampleHeaders = Inl (Error ''Invalid array length'')"
    by (rule allowedKeysOf_stuck) (simp_all add: twelve_Z twelve_ZY stuck_at_twelve_Z jsLe_def)
  then have q: "parseSpecFile 4294967295 sampleNumStr (Inr ([sampleRow], sampleHeaders))
     (Some ?inv) = Inl (Error ''Invalid array length'')"
    by (rule parseSpecFile_rejects) simp
  have n: "base26_value (map letterDigit ''ZZZZZZZZZZZY'') <
           base26_value (map letterDigit ''ZZZZZZZZZZZZ'')"
    by code_simp
  from p q n sample_indices(1,8) twelve_Z twelve_ZY show ?thesis by blast
qed


end
